theory Spec2Isabelle
  imports Complex_Main "HOL-Library.Sublist"
begin

text \<open>
  A model of the command-line tools of the repository (the vectorizer, the data validator
  and the MCP server) and proofs of the properties claimed of them.  The JSON parser, the
  embedding model, the vector database, the clock and the identifier generator are
  parameters of the model: the repository calls them and does not implement them.
\<close>

section \<open>Python values and the operations the tools apply to them\<close>

text \<open>
  A Python \<open>str\<close> is modelled as the list of its characters, one \<open>char\<close> per code
  point (so the model covers text whose code points are below 256, and \<open>length\<close>
  is Python's \<open>len\<close>).  Exceptions are values of the type \<open>error\<close>; a function that
  can raise returns \<open>error + 'a\<close>.
\<close>

datatype error =
    FileNotFoundError string
  | JSONDecodeError
  | TypeError
  | KeyError string
  | AttributeError
  | ValueError
  | RecursionError
  | ZeroDivisionError
  | ModelError
  | StoreError

text \<open>
  What \<open>json.loads\<close> can return: \<open>None\<close>, a bool, an int, a float, a str, a list or
  a dict.  A dict is an association list with lookup by \<open>map_of\<close>; a float is carried
  by its literal text, which nothing below inspects.
\<close>

datatype json =
    JNull
  | JBool bool
  | JInt int
  | JFloat string
  | JStr string
  | JArr "json list"
  | JObj "(string \<times> json) list"

text \<open>\<open>key in data\<close> for a string key: membership in a dict's keys, equality with an
  element of a list, substring of a string; anything else is not iterable.\<close>

fun py_contains :: "string \<Rightarrow> json \<Rightarrow> error + bool" where
  "py_contains k (JObj kvs) = Inr (k \<in> fst ` set kvs)"
| "py_contains k (JArr xs) = Inr (JStr k \<in> set xs)"
| "py_contains k (JStr s) = Inr (sublist k s)"
| "py_contains k _ = Inl TypeError"

text \<open>\<open>data[key]\<close> for a string key: only a dict accepts it.\<close>

fun py_getitem :: "json \<Rightarrow> string \<Rightarrow> error + json" where
  "py_getitem (JObj kvs) k = (case map_of kvs k of None \<Rightarrow> Inl (KeyError k) | Some v \<Rightarrow> Inr v)"
| "py_getitem _ k = Inl TypeError"

text \<open>\<open>data.get(key, default)\<close>: only a dict has the method.\<close>

fun py_get :: "json \<Rightarrow> string \<Rightarrow> json \<Rightarrow> error + json" where
  "py_get (JObj kvs) k d = Inr (case map_of kvs k of None \<Rightarrow> d | Some v \<Rightarrow> v)"
| "py_get _ k d = Inl AttributeError"

fun py_len :: "json \<Rightarrow> error + int" where
  "py_len (JStr s) = Inr (int (length s))"
| "py_len (JArr xs) = Inr (int (length xs))"
| "py_len (JObj kvs) = Inr (int (length kvs))"
| "py_len _ = Inl TypeError"

text \<open>The characters \<open>str.strip()\<close> removes, among the code points below 256;
  \<open>of_char\<close> is Python's \<open>ord\<close>.\<close>

definition isspace :: "char \<Rightarrow> bool" where
  "isspace c =
     (let n = (of_char c :: int)
      in (9 \<le> n \<and> n \<le> 13) \<or> (28 \<le> n \<and> n \<le> 32) \<or> n = 133 \<or> n = 160)"

definition strip :: "string \<Rightarrow> string" where
  "strip s = rev (dropWhile isspace (rev (dropWhile isspace s)))"

text \<open>\<open>s.replace(old, new)\<close>: the occurrences of \<open>old\<close> are found from left to right
  and do not overlap.\<close>

function py_replace :: "string \<Rightarrow> string \<Rightarrow> string \<Rightarrow> string" where
  "py_replace old new s =
     (if old = [] then new @ concat (map (\<lambda>c. c # new) s)
      else if s = [] then []
      else if prefix old s then new @ py_replace old new (drop (length old) s)
      else hd s # py_replace old new (tl s))"
  by pat_completeness auto
termination
  by (relation "measure (\<lambda>(old, new, s). length s)") auto

declare py_replace.simps [simp del]

text \<open>\<open>s.split(sep)\<close> for a separator of one character; the result is never empty.\<close>

fun split_char :: "char \<Rightarrow> string \<Rightarrow> string list" where
  "split_char sep [] = [[]]"
| "split_char sep (c # cs) =
     (if c = sep then [] # split_char sep cs
      else (case split_char sep cs of
              [] \<Rightarrow> [[c]]
            | p # ps \<Rightarrow> (c # p) # ps))"

text \<open>\<open>os.path.basename\<close> on POSIX: what follows the last slash.\<close>

definition basename :: "string \<Rightarrow> string" where
  "basename p = rev (takeWhile (\<lambda>c. c \<noteq> CHR ''/'') (rev p))"

text \<open>A slice \<open>xs[i:j]\<close>: a negative bound counts from the end, and both bounds are
  clamped to the list.\<close>

definition slice_bound :: "nat \<Rightarrow> int \<Rightarrow> nat" where
  "slice_bound n k = (if k < 0 then nat (max 0 (int n + k)) else min n (nat k))"

definition py_slice :: "'a list \<Rightarrow> int \<Rightarrow> int \<Rightarrow> 'a list" where
  "py_slice xs i j =
     (let lo = slice_bound (length xs) i; hi = slice_bound (length xs) j
      in take (hi - lo) (drop lo xs))"

text \<open>\<open>range(start, stop, step)\<close>: a zero step raises \<open>ValueError\<close>.\<close>

function range_from :: "int \<Rightarrow> int \<Rightarrow> int \<Rightarrow> int list" where
  "range_from i stop step =
     (if (0 < step \<and> i < stop) \<or> (step < 0 \<and> stop < i)
      then i # range_from (i + step) stop step else [])"
  by pat_completeness auto
termination
  by (relation "measure (\<lambda>(i, stop, step). if 0 < step then nat (stop - i) else nat (i - stop))")
     auto

declare range_from.simps [simp del]

definition py_range :: "int \<Rightarrow> int \<Rightarrow> int \<Rightarrow> error + int list" where
  "py_range start stop step =
     (if step = 0 then Inl ValueError else Inr (range_from start stop step))"

text \<open>Floor division \<open>a // b\<close>; on \<open>int\<close>, \<open>div\<close> rounds towards minus infinity as
  Python does.\<close>

definition py_floordiv :: "int \<Rightarrow> int \<Rightarrow> error + int" where
  "py_floordiv a b = (if b = 0 then Inl ZeroDivisionError else Inr (a div b))"

section \<open>The vectorizer: collection name and batches\<close>

text \<open>The name computed at the head of \<open>ChunkVectorizer._setup_collection\<close>.\<close>

definition collection_name_of :: "string \<Rightarrow> string \<Rightarrow> string" where
  "collection_name_of input_file model_name =
     (let collection_base_name = py_replace ''.jsonl'' '''' (basename input_file);
          model_short_name =
            (if CHR ''/'' \<in> set model_name then last (split_char CHR ''/'' model_name)
             else model_name);
          collection_name = collection_base_name @ ''_'' @ model_short_name
      in if length collection_name > 63 then take 63 collection_name else collection_name)"

text \<open>\<open>total_batches = (len(chunks) + self.batch_size - 1) // self.batch_size\<close>.\<close>

definition total_batches :: "'a list \<Rightarrow> int \<Rightarrow> error + int" where
  "total_batches chunks batch_size =
     py_floordiv (int (length chunks) + batch_size - 1) batch_size"

text \<open>The slices \<open>xs[i:i+batch_size]\<close> for \<open>i in range(0, len(xs), batch_size)\<close>, in
  the order the two loops of \<open>process_and_store_chunks\<close> take them.\<close>

definition batch_slices :: "int \<Rightarrow> 'a list \<Rightarrow> error + 'a list list" where
  "batch_slices batch_size xs =
     (case py_range 0 (int (length xs)) batch_size of
        Inl e \<Rightarrow> Inl e
      | Inr starts \<Rightarrow> Inr (map (\<lambda>i. py_slice xs i (i + batch_size)) starts))"

section \<open>Text files\<close>

text \<open>
  A file system maps a path to the text of the file at that path, as a read in text mode
  sees it (decoded, line ends translated to the line feed).  Iterating over an open
  file yields \<open>lines_of\<close> its text: every line keeps its line feed, and the last one
  may lack it.
\<close>

type_synonym filesystem = "string \<rightharpoonup> string"

fun lines_of :: "string \<Rightarrow> string list" where
  "lines_of [] = []"
| "lines_of (c # cs) =
     (if c = CHR 0x0A then [c] # lines_of cs
      else (case lines_of cs of
              [] \<Rightarrow> [[c]]
            | l # ls \<Rightarrow> (c # l) # ls))"

text \<open>Sequencing a fallible function over a list: the first exception ends it.\<close>

fun map_result :: "('a \<Rightarrow> error + 'b) \<Rightarrow> 'a list \<Rightarrow> error + 'b list" where
  "map_result f [] = Inr []"
| "map_result f (x # xs) =
     (case f x of
        Inl e \<Rightarrow> Inl e
      | Inr y \<Rightarrow> (case map_result f xs of Inl e \<Rightarrow> Inl e | Inr ys \<Rightarrow> Inr (y # ys)))"

section \<open>The data validator (\<open>tools/data_validator.py\<close>)\<close>

text \<open>The messages appended to \<open>self.errors\<close> and \<open>self.warnings\<close>, by what they
  report; the line number and the values formatted into each message are kept.\<close>

datatype message =
    FileMissing string
  | JsonError nat
  | MissingFields nat "string list"
  | DuplicateId nat string
  | NotAString nat string
  | EmptyField nat string
  | TextTooShort nat int
  | TextTooLong nat int
  | IdSpecialChars nat string

record vstats =
  total_lines :: nat
  valid_docs :: nat
  empty_lines :: nat
  json_errors :: nat
  missing_fields :: nat
  duplicate_ids :: nat
  text_lengths :: "int list"
  id_patterns :: "(string \<times> nat) list"
  source_patterns :: "(string \<times> nat) list"

record validator =
  file_path :: string
  errors :: "message list"
  warnings :: "message list"
  stats :: vstats

definition new_validator :: "string \<Rightarrow> validator" where
  "new_validator path =
     \<lparr>file_path = path, errors = [], warnings = [],
      stats = \<lparr>total_lines = 0, valid_docs = 0, empty_lines = 0, json_errors = 0,
               missing_fields = 0, duplicate_ids = 0, text_lengths = [],
               id_patterns = [], source_patterns = []\<rparr>\<rparr>"

definition required_fields :: "string list" where
  "required_fields = [''id'', ''text'', ''source'']"

text \<open>The loop over \<open>required_fields\<close> in \<open>_validate_document\<close>, with the list of
  missing fields and the warnings as they grow.\<close>

fun check_fields ::
  "json \<Rightarrow> nat \<Rightarrow> string list \<Rightarrow> string list \<times> message list
     \<Rightarrow> error + string list \<times> message list" where
  "check_fields data line_num [] acc = Inr acc"
| "check_fields data line_num (field # rest) (missing, warns) =
     (case py_contains field data of
        Inl e \<Rightarrow> Inl e
      | Inr present \<Rightarrow>
          if \<not> present then check_fields data line_num rest (missing @ [field], warns)
          else (case py_getitem data field of
                  Inl e \<Rightarrow> Inl e
                | Inr v \<Rightarrow>
                    (case v of
                       JStr s \<Rightarrow>
                         if strip s = []
                         then check_fields data line_num rest
                                (missing, warns @ [EmptyField line_num field])
                         else check_fields data line_num rest (missing, warns)
                     | _ \<Rightarrow>
                         check_fields data line_num rest
                           (missing, warns @ [NotAString line_num field]))))"

text \<open>The classes \<open>\d\<close> (among the code points below 256) and \<open>[a-zA-Z]\<close>, and
  \<open>re.match(r'^[a-zA-Z0-9_-]+$', s)\<close>: a non-empty run of these characters up to the
  end of the string, or up to a line feed that ends it.\<close>

definition is_digit :: "char \<Rightarrow> bool" where
  "is_digit c = (let n = (of_char c :: int) in 48 \<le> n \<and> n \<le> 57)"

definition is_letter :: "char \<Rightarrow> bool" where
  "is_letter c =
     (let n = (of_char c :: int) in (97 \<le> n \<and> n \<le> 122) \<or> (65 \<le> n \<and> n \<le> 90))"

definition id_format_ok :: "string \<Rightarrow> bool" where
  "id_format_ok s =
     (let body = (if s \<noteq> [] \<and> last s = CHR 0x0A then butlast s else s)
      in body \<noteq> [] \<and>
         list_all (\<lambda>c. is_letter c \<or> is_digit c \<or> c = CHR ''_'' \<or> c = CHR ''-'') body)"

text \<open>\<open>_validate_document\<close>: the result is the \<open>valid\<close> entry of the returned dict,
  with the validator as the call leaves it.\<close>

definition validate_document :: "json \<Rightarrow> nat \<Rightarrow> validator \<Rightarrow> error + bool \<times> validator" where
  "validate_document data line_num self =
     (case check_fields data line_num required_fields ([], warnings self) of
        Inl e \<Rightarrow> Inl e
      | Inr (missing, warns) \<Rightarrow>
          let self1 = self\<lparr>warnings := warns\<rparr>
          in if missing \<noteq> []
             then Inr (False, self1\<lparr>errors := errors self1 @ [MissingFields line_num missing]\<rparr>)
             else
               (case py_getitem data ''text'' of
                  Inl e \<Rightarrow> Inl e
                | Inr text \<Rightarrow>
                    (case py_len text of
                       Inl e \<Rightarrow> Inl e
                     | Inr text_length \<Rightarrow>
                         let self2 =
                               (if text_length < 10
                                then self1\<lparr>warnings := warnings self1 @ [TextTooShort line_num text_length]\<rparr>
                                else if text_length > 16384
                                then self1\<lparr>warnings := warnings self1 @ [TextTooLong line_num text_length]\<rparr>
                                else self1)
                         in (case py_getitem data ''id'' of
                               Inl e \<Rightarrow> Inl e
                             | Inr (JStr s) \<Rightarrow>
                                 if \<not> id_format_ok s
                                 then Inr (True, self2\<lparr>warnings := warnings self2 @ [IdSpecialChars line_num s]\<rparr>)
                                 else Inr (True, self2)
                             | Inr _ \<Rightarrow> Inl TypeError))))"

text \<open>\<open>re.sub\<close> of a pattern \<open>[class]+\<close>: every maximal run of characters of the class
  becomes one character.\<close>

function sub_runs :: "(char \<Rightarrow> bool) \<Rightarrow> char \<Rightarrow> string \<Rightarrow> string" where
  "sub_runs p r [] = []"
| "sub_runs p r (c # cs) =
     (if p c then r # sub_runs p r (dropWhile p cs) else c # sub_runs p r cs)"
  by pat_completeness auto
termination
  by (relation "measure (\<lambda>(p, r, s). length s)")
     (auto simp: less_Suc_eq_le length_dropWhile_le)

definition extract_pattern :: "string \<Rightarrow> string" where
  "extract_pattern text = sub_runs is_letter CHR ''A'' (sub_runs is_digit CHR ''N'' text)"

text \<open>\<open>counter[key] += 1\<close> on a \<open>Counter\<close>, which keeps its keys in insertion order.\<close>

fun counter_incr :: "(string \<times> nat) list \<Rightarrow> string \<Rightarrow> (string \<times> nat) list" where
  "counter_incr [] k = [(k, 1)]"
| "counter_incr ((k', n) # rest) k =
     (if k' = k then (k', n + 1) # rest else (k', n) # counter_incr rest k)"

definition collect_stats :: "json \<Rightarrow> validator \<Rightarrow> error + validator" where
  "collect_stats data self =
     (case py_getitem data ''text'' of
        Inl e \<Rightarrow> Inl e
      | Inr text \<Rightarrow>
          (case py_len text of
             Inl e \<Rightarrow> Inl e
           | Inr n \<Rightarrow>
               (case py_getitem data ''id'' of
                  Inl e \<Rightarrow> Inl e
                | Inr (JStr i) \<Rightarrow>
                    (case py_getitem data ''source'' of
                       Inl e \<Rightarrow> Inl e
                     | Inr (JStr src) \<Rightarrow>
                         Inr (stats_update
                                (source_patterns_update (\<lambda>c. counter_incr c (extract_pattern src)) \<circ>
                                 id_patterns_update (\<lambda>c. counter_incr c (extract_pattern i)) \<circ>
                                 text_lengths_update (\<lambda>ls. ls @ [n])) self)
                     | Inr _ \<Rightarrow> Inl TypeError)
                | Inr _ \<Rightarrow> Inl TypeError)))"

text \<open>
  The body of the loop of \<open>validate\<close> for one line and its number, with \<open>seen_ids\<close> and
  the validator as state.  The parser \<open>loads\<close> returns the exception it raises; the
  \<open>except\<close> clause catches \<open>json.JSONDecodeError\<close> and lets any other exception through.
  An identifier that reaches the duplicate check is a string: \<open>_validate_document\<close> has
  raised on any other.
\<close>

definition validate_line ::
  "(string \<Rightarrow> error + json) \<Rightarrow> nat \<Rightarrow> string \<Rightarrow> string set \<times> validator
     \<Rightarrow> error + string set \<times> validator" where
  "validate_line loads line_num line st =
     (let seen_ids = fst st;
          self = stats_update (total_lines_update (\<lambda>n. n + 1)) (snd st)
      in if strip line = []
         then Inr (seen_ids, stats_update (empty_lines_update (\<lambda>n. n + 1)) self)
         else
           (case loads line of
              Inl e \<Rightarrow>
                if e = JSONDecodeError
                then Inr (seen_ids,
                          (stats_update (json_errors_update (\<lambda>n. n + 1)) self)
                            \<lparr>errors := errors self @ [JsonError line_num]\<rparr>)
                else Inl e
            | Inr data \<Rightarrow>
                (case validate_document data line_num self of
                   Inl e \<Rightarrow> Inl e
                 | Inr (valid, self1) \<Rightarrow>
                     if valid then
                       (let self2 = stats_update (valid_docs_update (\<lambda>n. n + 1)) self1
                        in case py_getitem data ''id'' of
                             Inl e \<Rightarrow> Inl e
                           | Inr (JStr doc_id) \<Rightarrow>
                               (let st3 =
                                      (if doc_id \<in> seen_ids
                                       then (seen_ids,
                                             (stats_update (duplicate_ids_update (\<lambda>n. n + 1)) self2)
                                               \<lparr>errors := errors self2 @ [DuplicateId line_num doc_id]\<rparr>)
                                       else (insert doc_id seen_ids, self2))
                                in case collect_stats data (snd st3) of
                                     Inl e \<Rightarrow> Inl e
                                   | Inr self4 \<Rightarrow> Inr (fst st3, self4))
                           | Inr _ \<Rightarrow> Inl TypeError)
                     else
                       Inr (seen_ids, stats_update (missing_fields_update (\<lambda>n. n + 1)) self1))))"

text \<open>The loop over the lines of the file, numbered from \<open>line_num\<close>; an exception ends
  it.\<close>

fun validate_lines ::
  "(string \<Rightarrow> error + json) \<Rightarrow> nat \<Rightarrow> string list \<Rightarrow> string set \<times> validator
     \<Rightarrow> error + string set \<times> validator" where
  "validate_lines loads line_num [] st = Inr st"
| "validate_lines loads line_num (line # rest) st =
     (case validate_line loads line_num line st of
        Inl e \<Rightarrow> Inl e
      | Inr st' \<Rightarrow> validate_lines loads (line_num + 1) rest st')"

text \<open>The report of \<open>_generate_report\<close>.  The entry \<open>text_length_stats\<close>, which the
  source adds to the copy of the statistics, is a field of the report here; its
  average is the exact quotient.\<close>

record length_stats =
  ls_min :: int
  ls_max :: int
  ls_avg :: rat
  ls_median :: int

record report =
  report_file_path :: string
  validation_passed :: bool
  report_stats :: vstats
  text_length_stats :: "length_stats option"
  report_errors :: "message list"
  report_warnings :: "message list"

definition generate_report :: "validator \<Rightarrow> report" where
  "generate_report self =
     \<lparr>report_file_path = file_path self,
      validation_passed = (length (errors self) = 0),
      report_stats = stats self,
      text_length_stats =
        (let lengths = text_lengths (stats self)
         in if lengths \<noteq> []
            then Some \<lparr>ls_min = Min (set lengths), ls_max = Max (set lengths),
                       ls_avg = of_int (sum_list lengths) / of_nat (length lengths),
                       ls_median = sort lengths ! (length lengths div 2)\<rparr>
            else None),
      report_errors = errors self,
      report_warnings = warnings self\<rparr>"

definition validate :: "(string \<Rightarrow> error + json) \<Rightarrow> filesystem \<Rightarrow> string \<Rightarrow> error + report" where
  "validate loads fs path =
     (let self = new_validator path
      in case fs path of
           None \<Rightarrow> Inr (generate_report (self\<lparr>errors := errors self @ [FileMissing path]\<rparr>))
         | Some content \<Rightarrow>
             (case validate_lines loads 1 (lines_of content) ({}, self) of
                Inl e \<Rightarrow> Inl e
              | Inr (seen_ids, self') \<Rightarrow> Inr (generate_report self')))"

section \<open>The vectorizer (\<open>src/vectorizer.py\<close>)\<close>

text \<open>
  A stored row, and the arguments of one \<open>collection.add\<close> call: four lists aligned by
  index.  The type \<open>'e\<close> is the type of an embedding vector.
\<close>

record 'e row =
  row_id :: json
  row_embedding :: 'e
  row_document :: json
  row_metadata :: json

record 'e add_request =
  ids :: "json list"
  embeddings :: "'e list"
  documents :: "json list"
  metadatas :: "json list"

text \<open>
  The collaborators the repository calls and does not implement: the JSON parser, the
  clock, the embedding model and the vector database.  \<open>json_loads\<close> returns the value
  it parses or the exception it raises: \<open>JSONDecodeError\<close>, or for some lines
  \<open>ValueError\<close> (a number with more digits than the conversion to \<open>int\<close> accepts) or
  \<open>RecursionError\<close> (brackets nested too deep).  An option result is \<open>None\<close> when the
  call raises.  \<open>collection_add rows req\<close> is the content of a collection holding
  \<open>rows\<close> after an \<open>add\<close> of \<open>req\<close>; what the database does with identifiers it
  already holds is its own business.
\<close>

record 'e external =
  json_loads :: "string \<Rightarrow> error + json"
  now :: string
  cuda_available :: bool
  load_model :: "string \<Rightarrow> string \<Rightarrow> bool"
  tokenizer :: "json list \<Rightarrow> nat list option"
  encode :: "string \<Rightarrow> int option \<Rightarrow> int \<Rightarrow> json list \<Rightarrow> 'e list option"
  valid_collection_name :: "string \<Rightarrow> bool"
  collection_add :: "'e row list \<Rightarrow> 'e add_request \<Rightarrow> 'e row list option"

text \<open>What a run can change: the text files, and the collections of each database
  directory, keyed by directory and collection name.\<close>

record 'e world =
  files :: filesystem
  collections :: "string \<times> string \<rightharpoonup> 'e row list"

record vectorizer =
  input_file :: string
  db_directory :: string
  task :: string
  truncate_dim :: "int option"
  max_length :: int
  device :: "string option"
  batch_size :: int
  collection_name :: string

definition collections_file :: string where
  "collections_file = ''artifacts/vector_stores/collections.txt''"

text \<open>\<open>open(path, 'a+')\<close> followed by one \<open>write\<close>: the file is created when absent.\<close>

definition append_text :: "filesystem \<Rightarrow> string \<Rightarrow> string \<Rightarrow> filesystem" where
  "append_text fs path text =
     fs(path \<mapsto> (case fs path of None \<Rightarrow> [] | Some old \<Rightarrow> old) @ text)"

text \<open>
  \<open>_setup_collection\<close>.  \<open>delete_collection\<close> raises for a name the database does
  not hold, and the exception is swallowed; \<open>create_collection\<close> raises for a name the
  database refuses, and nothing catches that.
\<close>

definition setup_collection ::
  "'e external \<Rightarrow> vectorizer \<Rightarrow> string \<Rightarrow> 'e world \<Rightarrow> (error + vectorizer) \<times> 'e world" where
  "setup_collection ext self0 model_name w =
     (let self = self0\<lparr>collection_name := collection_name_of (input_file self0) model_name\<rparr>;
          key = (db_directory self, collection_name self);
          w1 = w\<lparr>collections := (collections w)(key := None)\<rparr>
      in if \<not> valid_collection_name ext (collection_name self) then (Inl ValueError, w1)
         else
           (let w2 = w1\<lparr>collections := (collections w1)(key \<mapsto> [])\<rparr>;
                line = collection_name self @ '' ('' @ now ext @ '') - Model: '' @ model_name
                         @ '', Task: '' @ task self @ [CHR 0x0A]
            in (Inr self, w2\<lparr>files := append_text (files w2) collections_file line\<rparr>)))"

definition load_model_step :: "'e external \<Rightarrow> vectorizer \<Rightarrow> string \<Rightarrow> error + vectorizer" where
  "load_model_step ext self model_name =
     (let dev = (case device self of
                   None \<Rightarrow> if cuda_available ext then ''cuda'' else ''cpu''
                 | Some d \<Rightarrow> d)
      in if load_model ext model_name dev then Inr (self\<lparr>device := Some dev\<rparr>)
         else Inl ModelError)"

text \<open>\<open>ChunkVectorizer.__init__\<close>: the collection is set up before the model is
  loaded, and both before any input is read.\<close>

definition init_vectorizer ::
  "'e external \<Rightarrow> string \<Rightarrow> string \<Rightarrow> string \<Rightarrow> string \<Rightarrow> int option \<Rightarrow> int \<Rightarrow> string option
     \<Rightarrow> int \<Rightarrow> 'e world \<Rightarrow> (error + vectorizer) \<times> 'e world" where
  "init_vectorizer ext input db model_name tsk tdim mlen dev bsize w =
     (let self = \<lparr>input_file = input, db_directory = db, task = tsk, truncate_dim = tdim,
                  max_length = mlen, device = dev, batch_size = bsize, collection_name = []\<rparr>
      in case setup_collection ext self model_name w of
           (Inl e, w') \<Rightarrow> (Inl e, w')
         | (Inr self', w') \<Rightarrow> (load_model_step ext self' model_name, w'))"

text \<open>The loop of \<open>load_chunks\<close> over the lines of the input file; an exception of the
  parser ends it.\<close>

fun read_chunks :: "(string \<Rightarrow> error + json) \<Rightarrow> json list \<Rightarrow> string list \<Rightarrow> error + json list" where
  "read_chunks loads chunks [] = Inr chunks"
| "read_chunks loads chunks (line # rest) =
     (if strip line \<noteq> []
      then (case loads line of
              Inl e \<Rightarrow> Inl e
            | Inr chunk \<Rightarrow> read_chunks loads (chunks @ [chunk]) rest)
      else read_chunks loads chunks rest)"

text \<open>\<open>len(chunk.get('text', ''))\<close>, which the statistics table of \<open>load_chunks\<close>
  takes of every chunk.\<close>

definition text_length :: "json \<Rightarrow> error + int" where
  "text_length chunk =
     (case py_get chunk ''text'' (JStr []) of Inl e \<Rightarrow> Inl e | Inr v \<Rightarrow> py_len v)"

definition load_chunks :: "'e external \<Rightarrow> vectorizer \<Rightarrow> 'e world \<Rightarrow> error + json list" where
  "load_chunks ext self w =
     (case files w (input_file self) of
        None \<Rightarrow> Inl (FileNotFoundError (input_file self))
      | Some content \<Rightarrow>
          (case read_chunks (json_loads ext) [] (lines_of content) of
             Inl e \<Rightarrow> Inl e
           | Inr chunks \<Rightarrow>
               if chunks \<noteq> []
               then (case map_result text_length chunks of
                       Inl e \<Rightarrow> Inl e
                     | Inr lengths \<Rightarrow> Inr chunks)
               else Inr chunks))"

text \<open>The embedding loop: one tokenizer call and one \<open>encode\<close> call for each batch of
  texts, in order.\<close>

fun embed_batches ::
  "'e external \<Rightarrow> vectorizer \<Rightarrow> json list list \<Rightarrow> 'e list \<times> nat \<Rightarrow> error + 'e list \<times> nat" where
  "embed_batches ext self [] acc = Inr acc"
| "embed_batches ext self (batch_texts # rest) (batch_embeddings, total_tokens) =
     (case tokenizer ext batch_texts of
        None \<Rightarrow> Inl ModelError
      | Some input_ids \<Rightarrow>
          (case encode ext (task self) (truncate_dim self) (max_length self) batch_texts of
             None \<Rightarrow> Inl ModelError
           | Some batch_result \<Rightarrow>
               embed_batches ext self rest
                 (batch_embeddings @ batch_result, total_tokens + sum_list input_ids)))"

text \<open>The storage loop: one \<open>add\<close> for each start index, with the four lists sliced
  alike.  A failure leaves the rows of the earlier batches in the collection.\<close>

fun store_batches ::
  "'e external \<Rightarrow> vectorizer \<Rightarrow> json list \<Rightarrow> 'e list \<Rightarrow> json list \<Rightarrow> json list \<Rightarrow> int list
     \<Rightarrow> 'e world \<Rightarrow> (error + unit) \<times> 'e world" where
  "store_batches ext self chunk_ids batch_embeddings texts metas [] w = (Inr (), w)"
| "store_batches ext self chunk_ids batch_embeddings texts metas (i # rest) w =
     (let j = i + batch_size self;
          req = \<lparr>ids = py_slice chunk_ids i j, embeddings = py_slice batch_embeddings i j,
                 documents = py_slice texts i j, metadatas = py_slice metas i j\<rparr>;
          key = (db_directory self, collection_name self)
      in case collections w key of
           None \<Rightarrow> (Inl StoreError, w)
         | Some rows \<Rightarrow>
             (case collection_add ext rows req of
                None \<Rightarrow> (Inl StoreError, w)
              | Some rows' \<Rightarrow>
                  store_batches ext self chunk_ids batch_embeddings texts metas rest
                    (w\<lparr>collections := (collections w)(key \<mapsto> rows')\<rparr>)))"

definition source_metadata :: "json \<Rightarrow> error + json" where
  "source_metadata chunk =
     (case py_getitem chunk ''source'' of
        Inl e \<Rightarrow> Inl e
      | Inr v \<Rightarrow> Inr (JObj [(''source'', v)]))"

definition process_and_store_chunks ::
  "'e external \<Rightarrow> vectorizer \<Rightarrow> json list \<Rightarrow> 'e world \<Rightarrow> (error + unit) \<times> 'e world" where
  "process_and_store_chunks ext self chunks w =
     (if chunks = [] then (Inr (), w)
      else
        case map_result (\<lambda>chunk. py_getitem chunk ''id'') chunks of
          Inl e \<Rightarrow> (Inl e, w)
        | Inr chunk_ids \<Rightarrow>
        case map_result (\<lambda>chunk. py_getitem chunk ''text'') chunks of
          Inl e \<Rightarrow> (Inl e, w)
        | Inr texts \<Rightarrow>
        case map_result source_metadata chunks of
          Inl e \<Rightarrow> (Inl e, w)
        | Inr metas \<Rightarrow>
        case total_batches chunks (batch_size self) of
          Inl e \<Rightarrow> (Inl e, w)
        | Inr n_batches \<Rightarrow>
        case batch_slices (batch_size self) texts of
          Inl e \<Rightarrow> (Inl e, w)
        | Inr text_batches \<Rightarrow>
        case embed_batches ext self text_batches ([], 0) of
          Inl e \<Rightarrow> (Inl e, w)
        | Inr (batch_embeddings, total_tokens) \<Rightarrow>
        case py_range 0 (int (length chunks)) (batch_size self) of
          Inl e \<Rightarrow> (Inl e, w)
        | Inr starts \<Rightarrow>
            store_batches ext self chunk_ids batch_embeddings texts metas starts w)"

text \<open>\<open>run\<close>: an exception is printed and raised again.  What the run prints (the
  tables, the progress bars, the completion statistics) is not part of the model.\<close>

definition run :: "'e external \<Rightarrow> vectorizer \<Rightarrow> 'e world \<Rightarrow> (error + unit) \<times> 'e world" where
  "run ext self w =
     (case load_chunks ext self w of
        Inl e \<Rightarrow> (Inl e, w)
      | Inr chunks \<Rightarrow>
          if chunks \<noteq> [] then process_and_store_chunks ext self chunks w else (Inr (), w))"

text \<open>The script: build the vectorizer from the arguments, then run it.\<close>

definition vectorizer_main ::
  "'e external \<Rightarrow> string \<Rightarrow> string \<Rightarrow> string \<Rightarrow> string \<Rightarrow> int option \<Rightarrow> int \<Rightarrow> string option
     \<Rightarrow> int \<Rightarrow> 'e world \<Rightarrow> (error + unit) \<times> 'e world" where
  "vectorizer_main ext input db model_name tsk tdim mlen dev bsize w =
     (case init_vectorizer ext input db model_name tsk tdim mlen dev bsize w of
        (Inl e, w') \<Rightarrow> (Inl e, w')
      | (Inr self, w') \<Rightarrow> run ext self w')"

section \<open>The MCP server (\<open>mcp_server/chroma_mcp_server_minimal.py\<close>)\<close>

text \<open>
  The server holds a database directory, the name of the collection it queries and the
  name of the memory collection.  Its collaborators: the embedding model, the
  database's \<open>query\<close> and \<open>add\<close>, the identifier the database gives a collection,
  \<open>uuid.uuid4()\<close> and the clock.  The last two are read once in a call of \<open>remember\<close>,
  so every call comes with its own values of them.
\<close>

record server =
  chromadb_path :: string
  collection :: string
  memory_collection :: string

record 'e mcp_external =
  model_encode :: "string \<Rightarrow> 'e option"
  collection_query :: "'e row list \<Rightarrow> 'e \<Rightarrow> int \<Rightarrow> json option"
  collection_id :: "string \<Rightarrow> string"
  memory_add :: "'e row list \<Rightarrow> 'e add_request \<Rightarrow> 'e row list option"
  uuid4 :: string
  utcnow :: string

text \<open>The dict a tool returns: its \<open>success\<close> entry and what comes with it.\<close>

datatype response =
    Collections "(string \<times> string) set"
  | Results json
  | Stored string string
  | Failure

fun success :: "response \<Rightarrow> bool" where
  "success Failure = False"
| "success _ = True"

definition list_collections :: "'e mcp_external \<Rightarrow> server \<Rightarrow> 'e world \<Rightarrow> response" where
  "list_collections ext srv w =
     Collections {(name, collection_id ext name) | name.
                    collections w (chromadb_path srv, name) \<noteq> None}"

text \<open>\<open>query\<close> and \<open>search_memory\<close> differ in the collection they read.\<close>

definition query_collection ::
  "'e mcp_external \<Rightarrow> server \<Rightarrow> string \<Rightarrow> string \<Rightarrow> int \<Rightarrow> 'e world \<Rightarrow> response" where
  "query_collection ext srv name query_text n_results w =
     (case model_encode ext query_text of
        None \<Rightarrow> Failure
      | Some query_embedding \<Rightarrow>
          (case collections w (chromadb_path srv, name) of
             None \<Rightarrow> Failure
           | Some rows \<Rightarrow>
               (case collection_query ext rows query_embedding n_results of
                  None \<Rightarrow> Failure
                | Some results \<Rightarrow> Results results)))"

definition query :: "'e mcp_external \<Rightarrow> server \<Rightarrow> string \<Rightarrow> int \<Rightarrow> 'e world \<Rightarrow> response" where
  "query ext srv query_text n_results w =
     query_collection ext srv (collection srv) query_text n_results w"

definition search_memory :: "'e mcp_external \<Rightarrow> server \<Rightarrow> string \<Rightarrow> int \<Rightarrow> 'e world \<Rightarrow> response" where
  "search_memory ext srv query_text n_results w =
     query_collection ext srv (memory_collection srv) query_text n_results w"

text \<open>\<open>remember\<close>: every exception is caught and becomes a failure response.\<close>

definition remember ::
  "'e mcp_external \<Rightarrow> server \<Rightarrow> string \<Rightarrow> 'e world \<Rightarrow> response \<times> 'e world" where
  "remember ext srv memory_text w =
     (let memory_id = ''memory_'' @ uuid4 ext
      in case model_encode ext memory_text of
           None \<Rightarrow> (Failure, w)
         | Some embedding \<Rightarrow>
             (let key = (chromadb_path srv, memory_collection srv);
                  req = \<lparr>ids = [JStr memory_id], embeddings = [embedding],
                         documents = [JStr memory_text],
                         metadatas = [JObj [(''source'', JStr ''user_memory''),
                                            (''timestamp_utc'', JStr (utcnow ext))]]\<rparr>
              in case collections w key of
                   None \<Rightarrow> (Failure, w)
                 | Some rows \<Rightarrow>
                     (case memory_add ext rows req of
                        None \<Rightarrow> (Failure, w)
                      | Some rows' \<Rightarrow>
                          (Stored ''Memory stored successfully.'' memory_id,
                           w\<lparr>collections := (collections w)(key \<mapsto> rows')\<rparr>))))"

text \<open>The four tools the server registers, as the requests it can receive.\<close>

datatype request =
    ListCollections string
  | Query string int
  | SearchMemory string int
  | Remember string

fun handle ::
  "'e mcp_external \<Rightarrow> server \<Rightarrow> request \<Rightarrow> 'e world \<Rightarrow> response \<times> 'e world" where
  "handle ext srv (ListCollections dummy) w = (list_collections ext srv w, w)"
| "handle ext srv (Query query_text n_results) w = (query ext srv query_text n_results w, w)"
| "handle ext srv (SearchMemory query_text n_results) w =
     (search_memory ext srv query_text n_results w, w)"
| "handle ext srv (Remember memory_text) w = remember ext srv memory_text w"

section \<open>Auxiliary notions used to state the properties\<close>

text \<open>The rows an \<open>add\<close> request carries, and a database whose successful \<open>add\<close> appends
  them to the collection.\<close>

definition request_rows :: "'e add_request \<Rightarrow> 'e row list" where
  "request_rows req =
     map (\<lambda>(i, e, d, m). \<lparr>row_id = i, row_embedding = e, row_document = d, row_metadata = m\<rparr>)
       (zip (ids req) (zip (embeddings req) (zip (documents req) (metadatas req))))"

definition add_appends :: "('e row list \<Rightarrow> 'e add_request \<Rightarrow> 'e row list option) \<Rightarrow> bool" where
  "add_appends add = (\<forall>rows req rows'. add rows req = Some rows' \<longrightarrow> rows' = rows @ request_rows req)"

text \<open>
  What the vectorizer relies on in its two collaborators.  Of the database: an \<open>add\<close>
  that succeeds appends the rows of the request, when the four lists of the request have
  one length and its identifiers are distinct and none of them is in the collection yet;
  what it does with an identifier it already holds is left open.  Of the model:
  \<open>encode\<close> returns one vector for each text.
\<close>

definition add_appends_fresh :: "('e row list \<Rightarrow> 'e add_request \<Rightarrow> 'e row list option) \<Rightarrow> bool" where
  "add_appends_fresh add =
     (\<forall>rows req rows'.
        add rows req = Some rows' \<and>
        length (embeddings req) = length (ids req) \<and>
        length (documents req) = length (ids req) \<and>
        length (metadatas req) = length (ids req) \<and>
        distinct (ids req) \<and> set (ids req) \<inter> row_id ` set rows = {}
        \<longrightarrow> rows' = rows @ request_rows req)"

definition one_vector_per_text ::
  "(string \<Rightarrow> int option \<Rightarrow> int \<Rightarrow> json list \<Rightarrow> 'e list option) \<Rightarrow> bool" where
  "one_vector_per_text enc =
     (\<forall>tsk tdim mlen texts vectors.
        enc tsk tdim mlen texts = Some vectors \<longrightarrow> length vectors = length texts)"

text \<open>The collection name in the words of the specification: the suffix \<open>.jsonl\<close> is
  removed from the base name of the input file, and the model's short name is what
  follows its last slash.\<close>

definition remove_suffix :: "string \<Rightarrow> string \<Rightarrow> string" where
  "remove_suffix suf s = (if suffix suf s then take (length s - length suf) s else s)"

definition after_last :: "char \<Rightarrow> string \<Rightarrow> string" where
  "after_last c s = rev (takeWhile (\<lambda>x. x \<noteq> c) (rev s))"

definition spec_collection_name :: "string \<Rightarrow> string \<Rightarrow> string" where
  "spec_collection_name input model_name =
     take 63 (remove_suffix ''.jsonl'' (after_last CHR ''/'' input) @ ''_''
                @ after_last CHR ''/'' model_name)"

text \<open>
  Kinds of line of an input file, for a parser \<open>loads\<close>: a malformed line is not blank and
  makes the parser raise \<open>JSONDecodeError\<close>; a well-formed line parses as an object whose \<open>id\<close>, \<open>text\<close> and \<open>source\<close>
  are strings.  A parsed value is structurally valid when every required field is \<open>in\<close>
  it; \<open>valid_id\<close> is the identifier of a structurally valid line, as a list of length at
  most one, and \<open>valid_ids\<close> lists the identifiers of the structurally valid lines of a
  file in order.
\<close>

definition malformed :: "(string \<Rightarrow> error + json) \<Rightarrow> string \<Rightarrow> bool" where
  "malformed loads line = (strip line \<noteq> [] \<and> loads line = Inl JSONDecodeError)"

definition str_field :: "json \<Rightarrow> string \<Rightarrow> string option" where
  "str_field data k = (case py_getitem data k of Inr (JStr v) \<Rightarrow> Some v | _ \<Rightarrow> None)"

definition well_formed :: "json \<Rightarrow> bool" where
  "well_formed data =
     (str_field data ''id'' \<noteq> None \<and> str_field data ''text'' \<noteq> None \<and>
      str_field data ''source'' \<noteq> None)"

definition well_formed_line :: "(string \<Rightarrow> error + json) \<Rightarrow> string \<Rightarrow> bool" where
  "well_formed_line loads line =
     (strip line \<noteq> [] \<and> (case loads line of Inl e \<Rightarrow> False | Inr data \<Rightarrow> well_formed data))"

definition structurally_valid :: "json \<Rightarrow> bool" where
  "structurally_valid data = list_all (\<lambda>field. py_contains field data = Inr True) required_fields"

definition valid_id :: "(string \<Rightarrow> error + json) \<Rightarrow> string \<Rightarrow> string list" where
  "valid_id loads line =
     (if strip line = [] then []
      else case loads line of
             Inl e \<Rightarrow> []
           | Inr data \<Rightarrow>
               if structurally_valid data
               then (case py_getitem data ''id'' of Inr (JStr i) \<Rightarrow> [i] | _ \<Rightarrow> [])
               else [])"

definition valid_ids :: "(string \<Rightarrow> error + json) \<Rightarrow> string list \<Rightarrow> string list" where
  "valid_ids loads ls = concat (map (valid_id loads) ls)"

text \<open>The numbers of the malformed lines of a file whose first line has number \<open>n\<close>.\<close>

fun malformed_numbers :: "(string \<Rightarrow> error + json) \<Rightarrow> nat \<Rightarrow> string list \<Rightarrow> nat list" where
  "malformed_numbers loads n [] = []"
| "malformed_numbers loads n (l # ls) =
     (if malformed loads l then [n] else []) @ malformed_numbers loads (n + 1) ls"

text \<open>A chunk the statistics table of \<open>load_chunks\<close> accepts: an object whose \<open>text\<close>,
  when present, has a length.\<close>

definition has_len :: "json \<Rightarrow> bool" where
  "has_len v = (case v of JStr s \<Rightarrow> True | JArr xs \<Rightarrow> True | JObj kvs \<Rightarrow> True | _ \<Rightarrow> False)"

definition loadable :: "json \<Rightarrow> bool" where
  "loadable chunk =
     (case chunk of
        JObj kvs \<Rightarrow> (case map_of kvs ''text'' of None \<Rightarrow> True | Some v \<Rightarrow> has_len v)
      | _ \<Rightarrow> False)"

section \<open>Sample inputs\<close>

text \<open>
  Concrete inputs for the examples below.  \<open>sample_loads\<close> is a parser that knows the
  lines of the samples: it returns what \<open>json.loads\<close> returns or raises for each of them, and
  raises \<open>JSONDecodeError\<close> on any other line.
\<close>

definition sample_doc :: "string \<Rightarrow> json" where
  "sample_doc i =
     JObj [(''id'', JStr i), (''text'', JStr ''Hello world.''), (''source'', JStr ''a.md'')]"

definition sample_line :: "string \<Rightarrow> string" where
  \<open>sample_line i =
     ''{"id": "'' @ i @ ''", "text": "Hello world.", "source": "a.md"}'' @ [CHR 0x0A]\<close>

definition sample_ids :: "string list" where
  "sample_ids = [''doc_000001'', ''doc_000002'', ''doc_000003'', ''doc_000004'', ''doc_000005'',
                 ''doc_000006'', ''doc_000007'', ''doc_000008'', ''doc_000009'']"

definition numeric_id_line :: string where
  \<open>numeric_id_line = ''{"id": 5, "text": "0123456789", "source": "s"}'' @ [CHR 0x0A]\<close>

definition numeric_text_line :: string where
  \<open>numeric_text_line = ''{"id": "a", "text": 5, "source": "s"}'' @ [CHR 0x0A]\<close>

text \<open>A line that is not valid JSON and on which \<open>json.loads\<close> raises \<open>ValueError\<close>, not
  \<open>JSONDecodeError\<close>: its number has 4301 digits, more than the conversion of a string to
  an \<open>int\<close> accepts (Python 3.11 and later).\<close>

definition big_number_line :: string where
  \<open>big_number_line = ''{"a": '' @ replicate 4301 CHR ''1'' @ [CHR 0x0A]\<close>

definition sample_loads :: "string \<Rightarrow> error + json" where
  \<open>sample_loads line =
     (if take 4 line = ''{"a"''
      then (if line = big_number_line then Inl ValueError else Inl JSONDecodeError)
      else (case map_of
                   (map (\<lambda>i. (sample_line i, sample_doc i)) sample_ids @
                    [(numeric_id_line,
                      JObj [(''id'', JInt 5), (''text'', JStr ''0123456789''),
                            (''source'', JStr ''s'')]),
                     (numeric_text_line,
                      JObj [(''id'', JStr ''a''), (''text'', JInt 5), (''source'', JStr ''s'')])])
                   line of
              None \<Rightarrow> Inl JSONDecodeError
            | Some data \<Rightarrow> Inr data))\<close>

definition one_bad_line_lines :: "string list" where
  "one_bad_line_lines =
     map sample_line (take 2 sample_ids) @ [''{not json'' @ [CHR 0x0A]] @
     map sample_line (drop 2 sample_ids)"

definition duplicate_id_lines :: "string list" where
  "duplicate_id_lines =
     [sample_line ''doc_000001'', sample_line ''doc_000002'', sample_line ''doc_000001'']"

text \<open>The collaborators of the samples: a model that loads, counts one token for each
  text and embeds every text as \<open>0\<close>, and a database that accepts a name of three
  characters or more, refuses a request that repeats an identifier, and appends the rows
  of a request whose identifier it does not hold yet.\<close>

definition sample_external :: "nat external" where
  "sample_external =
     \<lparr>json_loads = sample_loads, now = ''2025-01-01 00:00:00'', cuda_available = False,
      load_model = (\<lambda>model_name dev. True),
      tokenizer = (\<lambda>texts. Some (map (\<lambda>t. 1) texts)),
      encode = (\<lambda>tsk tdim mlen texts. Some (map (\<lambda>t. 0) texts)),
      valid_collection_name = (\<lambda>name. 3 \<le> length name),
      collection_add =
        (\<lambda>rows req.
           if distinct (ids req)
           then Some (rows @ filter (\<lambda>r. row_id r \<notin> set (map row_id rows)) (request_rows req))
           else None)\<rparr>"

definition sample_vectorizer :: vectorizer where
  "sample_vectorizer =
     \<lparr>input_file = ''data.jsonl'', db_directory = ''db'', task = ''retrieval.passage'',
      truncate_dim = None, max_length = 8192, device = Some ''cpu'', batch_size = 2,
      collection_name = ''data_m''\<rparr>"

definition sample_world :: "string \<Rightarrow> nat world" where
  "sample_world content = \<lparr>files = [''data.jsonl'' \<mapsto> content], collections = Map.empty\<rparr>"

text \<open>A server on the same database, with its own collaborators.\<close>

definition sample_server :: server where
  "sample_server = \<lparr>chromadb_path = ''db'', collection = ''data_m'', memory_collection = ''user_memories''\<rparr>"

definition sample_mcp_external :: "nat mcp_external" where
  "sample_mcp_external =
     \<lparr>model_encode = (\<lambda>text. Some (length text)),
      collection_query = (\<lambda>rows e n. Some (JArr (map row_document (take (nat n) rows)))),
      collection_id = (\<lambda>name. ''id-'' @ name),
      memory_add = (\<lambda>rows req. Some (rows @ request_rows req)),
      uuid4 = ''0b1f6c1e-8f0a-4c52-9a35-2f6f3c1d7e11'',
      utcnow = ''2025-01-01T00:00:00''\<rparr>"

definition memory_world :: "nat world" where
  "memory_world = \<lparr>files = Map.empty, collections = [(''db'', ''user_memories'') \<mapsto> []]\<rparr>"

text \<open>A database that already holds a collection \<open>data_m\<close> with one row and no input
  file; and the world a first run on three records leaves, with the file system a second
  run starts from.\<close>

definition stale_world :: "nat world" where
  "stale_world =
     \<lparr>files = Map.empty,
      collections =
        [(''db'', ''data_m'') \<mapsto>
           [\<lparr>row_id = JStr ''old'', row_embedding = 0, row_document = JStr ''an old row'',
             row_metadata = JObj [(''source'', JStr ''old.md'')]\<rparr>]]\<rparr>"

definition first_run_world :: "nat world" where
  "first_run_world =
     snd (vectorizer_main sample_external ''data.jsonl'' ''db'' ''org/m'' ''retrieval.passage'' None
            8192 (Some ''cpu'') 2 (sample_world (concat (map sample_line (take 3 sample_ids)))))"

definition second_run_files :: filesystem where
  "second_run_files = [''data.jsonl'' \<mapsto> sample_line ''doc_000003'']"

section \<open>Batches\<close>

lemma py_slice_nonneg:
  assumes "0 \<le> i" "0 \<le> b"
  shows "py_slice xs i (i + b) = take (nat b) (drop (nat i) xs)"
proof -
  have "min (length xs) (nat (i + b)) - min (length xs) (nat i) = min (length xs - nat i) (nat b)"
    using assms by (auto simp: min_def nat_add_distrib)
  then show ?thesis
    using assms by (simp add: py_slice_def slice_bound_def Let_def min_def)
qed

lemma range_from_steps:
  assumes "0 < b"
  shows "range_from i n b = map (\<lambda>k. i + int k * b) [0..<nat ((n - i + b - 1) div b)]"
  using assms
proof (induction i n b rule: range_from.induct)
  case (1 i stop step)
  let ?m = "nat ((stop - (i + step) + step - 1) div step)"
  show ?case
  proof (cases "i < stop")
    case True
    have "stop - i + step - 1 = (stop - (i + step) + step - 1) + step"
      by simp
    then have d: "(stop - i + step - 1) div step = (stop - (i + step) + step - 1) div step + 1"
      using 1(2) by (simp only: div_add_self2)
    have nn: "0 \<le> (stop - (i + step) + step - 1) div step"
      using True 1(2) by (simp add: pos_imp_zdiv_nonneg_iff)
    have m: "Suc ?m = nat ((stop - i + step - 1) div step)"
      using d nn by simp
    have "range_from i stop step = i # range_from (i + step) stop step"
      using True 1(2) by (subst range_from.simps) simp
    also have "range_from (i + step) stop step = map (\<lambda>k. (i + step) + int k * step) [0..<?m]"
      using 1(1) True 1(2) by simp
    also have "i # map (\<lambda>k. (i + step) + int k * step) [0..<?m]
                = map (\<lambda>k. i + int k * step) [0..<Suc ?m]"
      unfolding map_upt_Suc by (simp add: algebra_simps)
    finally show ?thesis unfolding m .
  next
    case False
    then have "(stop - i + step - 1) div step \<le> (step - 1) div step"
      using 1(2) by (intro zdiv_mono1) auto
    then have "(stop - i + step - 1) div step \<le> 0"
      using 1(2) by simp
    moreover have "range_from i stop step = []"
      using False 1(2) by (subst range_from.simps) simp
    ultimately show ?thesis by simp
  qed
qed


lemma batch_slices_eq:
  assumes "0 < b"
  shows "batch_slices b xs =
           Inr (map (\<lambda>k. take (nat b) (drop (k * nat b) xs))
                  [0..<nat ((int (length xs) + b - 1) div b)])"
proof -
  have sl: "py_slice xs (0 + int k * b) (0 + int k * b + b) = take (nat b) (drop (k * nat b) xs)" for k
  proof -
    have "py_slice xs (int k * b) (int k * b + b) = take (nat b) (drop (nat (int k * b)) xs)"
      using assms by (intro py_slice_nonneg) auto
    moreover have "nat (int k * b) = k * nat b"
      using assms by (simp add: nat_mult_distrib)
    ultimately show ?thesis by simp
  qed
  have "py_range 0 (int (length xs)) b = Inr (map (\<lambda>k. 0 + int k * b) [0..<nat ((int (length xs) + b - 1) div b)])"
    using assms range_from_steps[OF assms, of 0 "int (length xs)"] by (simp add: py_range_def)
  then show ?thesis
    unfolding batch_slices_def by (simp add: comp_def sl del: add_0)
qed

lemma ceil_div_nat:
  assumes "0 < B"
  shows "nat ((int N + int B - 1) div int B) = (N + B - 1) div B"
proof -
  have "int N + int B - 1 = int (N + B - 1)" using assms by simp
  then show ?thesis by (simp only: zdiv_int[symmetric] nat_int)
qed


lemma concat_takes:
  "concat (map (\<lambda>k. take B (drop (k * B) xs)) [0..<m]) = take (m * B) xs"
proof (induction m)
  case 0
  show ?case by simp
next
  case (Suc m)
  have "take (m * B + B) xs = take (m * B) xs @ take B (drop (m * B) xs)"
    by (rule take_add)
  with Suc show ?case by (simp add: add.commute)
qed

lemma ceil_bounds:
  fixes N B :: nat
  assumes "0 < B"
  defines "m \<equiv> (N + B - 1) div B"
  shows "N \<le> m * B" and "0 < N \<Longrightarrow> (m - 1) * B < N" and "0 < N \<Longrightarrow> 0 < m"
proof -
  have e: "m * B + (N + B - 1) mod B = N + B - 1"
    unfolding m_def by simp
  have r: "(N + B - 1) mod B < B"
    using assms(1) by simp
  show "N \<le> m * B" using e r by linarith
  show pos: "0 < m" if "0 < N"
  proof (rule ccontr)
    assume "\<not> 0 < m"
    then have "m = 0" by simp
    with e r that show False by simp
  qed
  show "(m - 1) * B < N" if "0 < N"
  proof -
    have "(m - 1) * B + B = m * B"
      using pos[OF that] by (cases m) simp_all
    with e that show ?thesis by linarith
  qed
qed

lemma last_batch_length:
  fixes N B :: nat
  assumes "0 < B" "0 < N"
  shows "N - ((N + B - 1) div B - 1) * B = (if N mod B = 0 then B else N mod B)"
proof -
  let ?q = "N div B" and ?r = "N mod B"
  have N: "N = ?q * B + ?r" by simp
  show ?thesis
  proof (cases "?r = 0")
    case True
    then have q: "0 < ?q" using assms by (metis N add.right_neutral mult_0 neq0_conv)
    have "(N + B - 1) div B = ?q"
    proof (rule div_nat_eqI)
      show "B * ?q \<le> N + B - 1" using True assms N by (metis add_leE le_add1 mult.commute Nat.add_diff_assoc Suc_leI One_nat_def add.right_neutral)
      show "N + B - 1 < B * Suc ?q" using True assms N by (metis add.right_neutral add.commute diff_less less_numeral_extra(1) mult.commute mult_Suc_right trans_less_add1 add_gr_0)
    qed
    moreover have "N - (?q - 1) * B = B"
    proof -
      have "(?q - 1) * B + B = N" using q True N by (cases ?q) simp_all
      then show ?thesis by linarith
    qed
    ultimately show ?thesis using True by simp
  next
    case False
    have "(N + B - 1) div B = Suc ?q"
    proof (rule div_nat_eqI)
      have "B * Suc ?q = ?q * B + B" by simp
      moreover have "N + B - 1 = ?q * B + (?r + B - 1)" using N assms by linarith
      ultimately show "B * Suc ?q \<le> N + B - 1" using False by linarith
      have "?r < B" using assms by simp
      moreover have "B * Suc (Suc ?q) = ?q * B + B + B" by simp
      moreover have "N + B - 1 = ?q * B + (?r + B - 1)" using N assms by linarith
      ultimately show "N + B - 1 < B * Suc (Suc ?q)" using assms by linarith
    qed
    then show ?thesis using False by (simp add: minus_div_mult_eq_mod)
  qed
qed


lemma ceiling_quotient:
  fixes N B :: nat
  assumes "0 < B" "0 < N"
  shows "\<lceil>real N / real B\<rceil> = int ((N + B - 1) div B)"
proof (rule ceiling_unique)
  let ?m = "(N + B - 1) div B"
  have lo: "(?m - 1) * B < N" and hi: "N \<le> ?m * B" and pos: "0 < ?m"
    using ceil_bounds[OF assms(1), of N] assms(2) by auto
  have "real ((?m - 1) * B) < real N" using lo by (simp only: of_nat_less_iff)
  then have "real (?m - 1) * real B < real N" by simp
  then have "real (?m - 1) < real N / real B"
    using assms(1) by (simp add: pos_less_divide_eq)
  moreover have "real (?m - 1) = real ?m - 1" using pos by (simp add: of_nat_diff)
  ultimately show "of_int (int ?m) - 1 < real N / real B" by simp
  have "real N \<le> real (?m * B)" using hi by (simp only: of_nat_le_iff)
  then have "real N \<le> real ?m * real B" by simp
  then show "real N / real B \<le> of_int (int ?m)"
    using assms(1) by (simp add: pos_divide_le_eq)
qed


text \<open>
  Claim C4.  For a non-empty sequence of \<open>N\<close> chunks and a batch size \<open>B \<ge> 1\<close>, the
  slices the embedding loop takes are consecutive (their concatenation is the
  sequence), their number is \<open>total_batches\<close>, which is the ceiling of \<open>N / B\<close>, every
  slice but the last has length \<open>B\<close>, and the last has length \<open>N mod B\<close>, or \<open>B\<close> when
  \<open>B\<close> divides \<open>N\<close>.
\<close>

theorem batch_partition:
  assumes "chunks \<noteq> []" and "1 \<le> bsize"
  shows "\<exists>batches.
           batch_slices bsize chunks = Inr batches \<and>
           total_batches chunks bsize = Inr (int (length batches)) \<and>
           int (length batches) = \<lceil>real (length chunks) / real_of_int bsize\<rceil> \<and>
           concat batches = chunks \<and>
           (\<forall>k < length batches - 1. length (batches ! k) = nat bsize) \<and>
           length (last batches) =
             (if length chunks mod nat bsize = 0 then nat bsize
              else length chunks mod nat bsize)"
proof -
  define B where "B = nat bsize"
  define N where "N = length chunks"
  define m where "m = (N + B - 1) div B"
  define batches where "batches = map (\<lambda>k. take B (drop (k * B) chunks)) [0..<m]"
  have B: "0 < B" "bsize = int B" using assms(2) by (simp_all add: B_def)
  have N: "0 < N" using assms(1) by (simp add: N_def)
  have lo: "(m - 1) * B < N" and hi: "N \<le> m * B" and pos: "0 < m"
    using ceil_bounds[OF B(1), of N] N by (auto simp: m_def)
  have m: "nat ((int N + bsize - 1) div bsize) = m"
    unfolding B(2) m_def by (rule ceil_div_nat[OF B(1)])
  have len: "length batches = m" by (simp add: batches_def)
  have 1: "batch_slices bsize chunks = Inr batches"
    using batch_slices_eq[of bsize chunks] assms(2) m
    by (simp add: batches_def B_def N_def)
  have "(int N + bsize - 1) div bsize = int m"
    unfolding B(2) m_def using B(1) by (simp add: zdiv_int of_nat_diff)
  then have 2: "total_batches chunks bsize = Inr (int (length batches))"
    using assms(2) by (simp add: total_batches_def py_floordiv_def len N_def)
  have 3: "int (length batches) = \<lceil>real (length chunks) / real_of_int bsize\<rceil>"
    using ceiling_quotient[OF B(1) N] by (simp add: len m_def B(2) N_def)
  have 4: "concat batches = chunks"
    unfolding batches_def concat_takes using hi by (simp add: N_def)
  have 5: "length (batches ! k) = nat bsize" if "k < length batches - 1" for k
  proof -
    have k: "k < m - 1" using that len by simp
    then have "Suc k \<le> m - 1" by simp
    then have "Suc k * B \<le> (m - 1) * B" by (rule mult_le_mono1)
    then have "k * B + B < N" using lo by simp
    moreover have "k < m" using k by simp
    then have "batches ! k = take B (drop (k * B) chunks)"
      by (simp add: batches_def)
    ultimately show ?thesis by (simp add: N_def B_def)
  qed
  have 6: "length (last batches) = (if N mod B = 0 then B else N mod B)"
  proof -
    have "batches \<noteq> []" using pos by (simp add: batches_def)
    then have "last batches = batches ! (m - 1)" using len by (simp add: last_conv_nth)
    also have "\<dots> = take B (drop ((m - 1) * B) chunks)"
      using pos by (simp add: batches_def)
    finally have "length (last batches) = min (N - (m - 1) * B) B" by (simp add: N_def)
    also have "\<dots> = N - (m - 1) * B"
    proof -
      have "(m - 1) * B + B = m * B" using pos by (cases m) simp_all
      with hi show ?thesis by simp
    qed
    also have "\<dots> = (if N mod B = 0 then B else N mod B)"
      unfolding m_def by (rule last_batch_length[OF B(1) N])
    finally show ?thesis .
  qed
  from 1 2 3 4 5 6 show ?thesis unfolding N_def B_def by blast
qed

text \<open>Seven chunks in batches of three.\<close>

theorem batch_partition_witness:
  "batch_slices 3 [1, 2, 3, 4, 5, 6, 7 :: nat] = Inr [[1, 2, 3], [4, 5, 6], [7]] \<and>
   total_batches [1, 2, 3, 4, 5, 6, 7 :: nat] 3 = Inr 3"
proof -
  have a: "[1, 2, 3, 4, 5, 6, 7 :: nat] \<noteq> []" by simp
  have b: "(1::int) \<le> 3" by simp
  obtain batches where
    s: "batch_slices 3 [1, 2, 3, 4, 5, 6, 7 :: nat] = Inr batches" and
    t: "total_batches [1, 2, 3, 4, 5, 6, 7 :: nat] 3 = Inr (int (length batches))"
    using batch_partition[OF a b] by blast
  have "batch_slices 3 [1, 2, 3, 4, 5, 6, 7 :: nat] = Inr [[1, 2, 3], [4, 5, 6], [7]]"
    by code_simp
  with s t show ?thesis by simp
qed

section \<open>The collection name\<close>

lemma py_replace_Nil: "old \<noteq> [] \<Longrightarrow> py_replace old new [] = []"
  by (subst py_replace.simps) simp

lemma py_replace_skip:
  "old \<noteq> [] \<Longrightarrow> \<not> prefix old (c # cs) \<Longrightarrow> py_replace old new (c # cs) = c # py_replace old new cs"
  by (subst py_replace.simps) simp

lemma py_replace_hit:
  "old \<noteq> [] \<Longrightarrow> py_replace old new (old @ s) = new @ py_replace old new s"
  by (subst py_replace.simps) simp

lemma py_replace_absent:
  "old \<noteq> [] \<Longrightarrow> \<not> sublist old s \<Longrightarrow> py_replace old new s = s"
proof (induction s)
  case Nil
  then show ?case by (simp add: py_replace_Nil)
next
  case (Cons c cs)
  have "\<not> prefix old (c # cs)" using Cons.prems(2) by (auto dest: prefix_imp_sublist)
  moreover have "\<not> sublist old cs" using Cons.prems(2) by (auto simp: sublist_Cons_right)
  ultimately show ?case using Cons by (simp add: py_replace_skip)
qed

lemma no_straddle:
  assumes "c \<notin> set q" and "prefix (c # q) (t @ c # q)"
  shows "t = [] \<or> prefix (c # q) t"
proof -
  from assms(2) consider "prefix (c # q) t" | us where "c # q = t @ us" "prefix us (c # q)"
    by (auto simp: prefix_append)
  then show ?thesis
  proof cases
    case 1
    then show ?thesis by simp
  next
    case 2
    show ?thesis
    proof (cases t)
      case Nil
      then show ?thesis by simp
    next
      case (Cons x t')
      with 2(1) have q: "q = t' @ us" and x: "x = c" by simp_all
      show ?thesis
      proof (cases us)
        case Nil
        with 2(1) show ?thesis by simp
      next
        case (Cons u us')
        with 2(2) have "u = c" by simp
        with Cons q assms(1) show ?thesis by simp
      qed
    qed
  qed
qed

lemma jsonl_no_straddle:
  assumes "prefix ''.jsonl'' (t @ ''.jsonl'')"
  shows "t = [] \<or> prefix ''.jsonl'' t"
proof -
  have "CHR ''.'' \<notin> set ''jsonl''" by simp
  from no_straddle[OF this] assms show ?thesis by blast
qed

lemma py_replace_only_suffix:
  "\<not> sublist ''.jsonl'' t \<Longrightarrow> py_replace ''.jsonl'' new (t @ ''.jsonl'') = t @ new"
proof (induction t)
  case Nil
  have "py_replace ''.jsonl'' new (''.jsonl'' @ []) = new @ py_replace ''.jsonl'' new []"
    by (rule py_replace_hit) simp
  then show ?case by (simp add: py_replace_Nil)
next
  case (Cons c cs)
  have "\<not> prefix ''.jsonl'' ((c # cs) @ ''.jsonl'')"
    using jsonl_no_straddle[of "c # cs"] Cons.prems by (auto dest: prefix_imp_sublist)
  then have "py_replace ''.jsonl'' new ((c # cs) @ ''.jsonl'') = c # py_replace ''.jsonl'' new (cs @ ''.jsonl'')"
    using py_replace_skip[of "''.jsonl''" c "cs @ ''.jsonl''" new] by simp
  moreover have "\<not> sublist ''.jsonl'' cs" using Cons.prems by (auto simp: sublist_Cons_right)
  ultimately show ?case using Cons.IH by simp
qed

lemma split_char_absent: "c \<notin> set s \<Longrightarrow> split_char c s = [s]"
  by (induction s) auto

lemma split_char_present: "c \<in> set s \<Longrightarrow> \<exists>p q ps. split_char c s = p # q # ps"
proof (induction s)
  case Nil
  then show ?case by simp
next
  case (Cons x xs)
  show ?case
  proof (cases "c \<in> set xs")
    case True
    with Cons.IH obtain p q ps where "split_char c xs = p # q # ps" by blast
    then show ?thesis by auto
  next
    case False
    then have "x = c" using Cons.prems by simp
    then show ?thesis using False by (simp add: split_char_absent)
  qed
qed

lemma last_split_char: "last (split_char c s) = after_last c s"
proof (induction s)
  case Nil
  show ?case by (simp add: after_last_def)
next
  case (Cons x xs)
  show ?case
  proof (cases "c \<in> set xs")
    case True
    then obtain p q ps where s: "split_char c xs = p # q # ps"
      using split_char_present by blast
    have "last (split_char c (x # xs)) = last (split_char c xs)"
      using s by simp
    moreover have "after_last c (x # xs) = after_last c xs"
      using True by (auto simp: after_last_def takeWhile_append)
    ultimately show ?thesis using Cons.IH by simp
  next
    case False
    then show ?thesis
      by (simp add: split_char_absent after_last_def takeWhile_append)
  qed
qed

lemma basename_after_last: "basename p = after_last CHR ''/'' p"
  by (simp add: basename_def after_last_def)

text \<open>
  Claim C5, as amended.  For every input path and model name, the collection name is
  the base name of the input file (what follows its last slash) after
  \<open>str.replace('.jsonl', '')\<close> has removed every occurrence of \<open>.jsonl\<close> from it in one pass
  from the left, an underscore, and what follows the last slash of the model name (the
  whole model name when it holds no slash), cut to 63 characters; it never exceeds 63
  characters.  \<open>spec_collection_name\<close> is the name the claim describes, the base name
  without its \<open>.jsonl\<close> suffix: the code computes that name whenever \<open>.jsonl\<close> occurs in the
  base name only as its suffix.
\<close>

theorem collection_name_refines:
  "collection_name_of input model_name
     = take 63 (py_replace ''.jsonl'' '''' (after_last CHR ''/'' input) @ ''_''
                  @ after_last CHR ''/'' model_name) \<and>
   length (collection_name_of input model_name) \<le> 63 \<and>
   (\<not> sublist ''.jsonl'' (remove_suffix ''.jsonl'' (basename input)) \<longrightarrow>
      collection_name_of input model_name = spec_collection_name input model_name)"
proof -
  let ?b = "basename input"
  have m: "(if CHR ''/'' \<in> set model_name then last (split_char CHR ''/'' model_name) else model_name)
             = after_last CHR ''/'' model_name"
  proof (cases "CHR ''/'' \<in> set model_name")
    case True
    then show ?thesis by (simp add: last_split_char)
  next
    case False
    then have tw: "takeWhile (\<lambda>x. x \<noteq> CHR ''/'') (rev model_name) = rev model_name"
      by (intro takeWhile_eq_all_conv[THEN iffD2]) auto
    show ?thesis unfolding after_last_def tw using False by simp
  qed
  have t: "(if length n > 63 then take 63 n else n) = take 63 n" for n :: string
    by simp
  have g: "collection_name_of input model_name
             = take 63 (py_replace ''.jsonl'' '''' (after_last CHR ''/'' input) @ ''_''
                          @ after_last CHR ''/'' model_name)"
    unfolding collection_name_of_def Let_def m t basename_after_last by (rule refl)
  have l: "length (take 63 n) \<le> 63" for n :: string
    by simp
  have len: "length (collection_name_of input model_name) \<le> 63"
    unfolding g by (rule l)
  have e: "collection_name_of input model_name = spec_collection_name input model_name"
    if h: "\<not> sublist ''.jsonl'' (remove_suffix ''.jsonl'' ?b)"
  proof -
    have r: "py_replace ''.jsonl'' [] ?b = remove_suffix ''.jsonl'' ?b"
    proof (cases "suffix ''.jsonl'' ?b")
      case True
      then obtain t where t: "?b = t @ ''.jsonl''" by (auto simp: suffix_def)
      then have "remove_suffix ''.jsonl'' ?b = t" using True by (simp add: remove_suffix_def)
      with h t show ?thesis using py_replace_only_suffix[of t "[]"] by simp
    next
      case False
      then have "remove_suffix ''.jsonl'' ?b = ?b" by (simp add: remove_suffix_def)
      with h show ?thesis using py_replace_absent[of "''.jsonl''" ?b "[]"] by simp
    qed
    show ?thesis
      unfolding g spec_collection_name_def using r by (simp add: basename_after_last)
  qed
  from g len e show ?thesis by blast
qed

text \<open>The example of the claim: \<open>x.jsonl\<close> and \<open>org/model\<close> give \<open>x_model\<close>.\<close>

theorem collection_name_witness:
  "\<not> sublist ''.jsonl'' (remove_suffix ''.jsonl'' (basename ''data/x.jsonl'')) \<and>
   collection_name_of ''data/x.jsonl'' ''org/model'' = ''x_model''"
proof -
  have h: "\<not> sublist ''.jsonl'' (remove_suffix ''.jsonl'' (basename ''data/x.jsonl''))"
    by code_simp
  have "spec_collection_name ''data/x.jsonl'' ''org/model'' = ''x_model''"
    by code_simp
  moreover from h collection_name_refines[of "''data/x.jsonl''" "''org/model''"]
  have "collection_name_of ''data/x.jsonl'' ''org/model''
          = spec_collection_name ''data/x.jsonl'' ''org/model''"
    by blast
  ultimately show ?thesis using h by simp
qed

text \<open>Claim C5 as stated fails for a base name that holds \<open>.jsonl\<close> twice: the code
  removes both occurrences, the claim only the suffix.\<close>

theorem collection_name_counterexample:
  "collection_name_of ''data.jsonl.bak.jsonl'' ''org/model'' = ''data.bak_model'' \<and>
   spec_collection_name ''data.jsonl.bak.jsonl'' ''org/model'' = ''data.jsonl.bak_model'' \<and>
   collection_name_of ''data.jsonl.bak.jsonl'' ''org/model''
     \<noteq> spec_collection_name ''data.jsonl.bak.jsonl'' ''org/model''"
  by code_simp

section \<open>The data validator\<close>

lemma check_fields_missing:
  "check_fields d n fs (m, w) = Inr (m', w') \<Longrightarrow>
     (m' = []) = (m = [] \<and> list_all (\<lambda>f. py_contains f d = Inr True) fs)"
proof (induction fs arbitrary: m w)
  case Nil
  then show ?case by simp
next
  case (Cons f fs)
  show ?case
  proof (cases "py_contains f d")
    case (Inl e)
    with Cons.prems show ?thesis by simp
  next
    case (Inr present)
    show ?thesis
    proof (cases present)
      case False
      with Inr Cons.prems have "check_fields d n fs (m @ [f], w) = Inr (m', w')" by simp
      from Cons.IH[OF this] Inr False show ?thesis by simp
    next
      case True
      with Inr Cons.prems obtain w1 where "check_fields d n fs (m, w1) = Inr (m', w')"
        by (auto split: sum.splits json.splits if_splits)
      from Cons.IH[OF this] Inr True show ?thesis by simp
    qed
  qed
qed

lemma validate_document_stats:
  "validate_document d n s = Inr (v, s') \<Longrightarrow> stats s' = stats s"
  by (auto simp: validate_document_def Let_def split: sum.splits prod.splits if_splits json.splits)

lemma validate_document_errors:
  "validate_document d n s = Inr (v, s') \<Longrightarrow>
     (if v then errors s' = errors s else \<exists>m. errors s' = errors s @ [MissingFields n m])"
  by (auto simp: validate_document_def Let_def split: sum.splits prod.splits if_splits json.splits)

lemma validate_document_valid:
  "validate_document d n s = Inr (v, s') \<Longrightarrow> v = structurally_valid d"
  by (auto simp: validate_document_def Let_def structurally_valid_def
           dest!: check_fields_missing split: sum.splits prod.splits if_splits json.splits)

lemma validate_document_id:
  "validate_document d n s = Inr (True, s') \<Longrightarrow> \<exists>i. py_getitem d ''id'' = Inr (JStr i)"
  by (auto simp: validate_document_def Let_def split: sum.splits prod.splits if_splits json.splits)

lemma collect_stats_frame:
  "collect_stats d s = Inr s' \<Longrightarrow>
     errors s' = errors s \<and> warnings s' = warnings s \<and>
     total_lines (stats s') = total_lines (stats s) \<and>
     valid_docs (stats s') = valid_docs (stats s) \<and>
     empty_lines (stats s') = empty_lines (stats s) \<and>
     json_errors (stats s') = json_errors (stats s) \<and>
     missing_fields (stats s') = missing_fields (stats s) \<and>
     duplicate_ids (stats s') = duplicate_ids (stats s)"
  by (auto simp: collect_stats_def split: sum.splits json.splits)

lemma validate_line_effect:
  assumes "validate_line loads n l (seen, s) = Inr (seen', s')"
  shows "total_lines (stats s') = total_lines (stats s) + 1 \<and>
         empty_lines (stats s') = empty_lines (stats s) + (if strip l = [] then 1 else 0) \<and>
         json_errors (stats s') = json_errors (stats s) + (if malformed loads l then 1 else 0) \<and>
         valid_docs (stats s') = valid_docs (stats s) + length (valid_id loads l) \<and>
         missing_fields (stats s') + length (valid_id loads l) + (if strip l = [] then 1 else 0)
             + (if malformed loads l then 1 else 0)
           = missing_fields (stats s) + 1 \<and>
         seen' = seen \<union> set (valid_id loads l) \<and>
         duplicate_ids (stats s')
           = duplicate_ids (stats s) + length (filter (\<lambda>i. i \<in> seen) (valid_id loads l)) \<and>
         (malformed loads l \<longrightarrow> errors s' = errors s @ [JsonError n]) \<and>
         (strip l = [] \<longrightarrow> errors s' = errors s) \<and>
         (\<forall>i. valid_id loads l = [i] \<longrightarrow>
              errors s' = errors s @ (if i \<in> seen then [DuplicateId n i] else []))"
proof (cases "strip l = []")
  case True
  with assms show ?thesis
    by (auto simp: validate_line_def valid_id_def malformed_def)
next
  case nonblank: False
  show ?thesis
  proof (cases "loads l")
    case (Inl e)
    with nonblank assms have "e = JSONDecodeError"
      by (auto simp: validate_line_def Let_def split: if_splits)
    with Inl nonblank assms show ?thesis
      by (auto simp: validate_line_def valid_id_def malformed_def)
  next
    case (Inr d)
    let ?s0 = "stats_update (total_lines_update (\<lambda>n. n + 1)) s"
    from assms nonblank Inr obtain v s1 where vd: "validate_document d n ?s0 = Inr (v, s1)"
      by (auto simp: validate_line_def Let_def split: sum.splits)
    have st1: "stats s1 = stats ?s0" using vd by (rule validate_document_stats)
    have v: "v = structurally_valid d" using vd by (rule validate_document_valid)
    have nm: "\<not> malformed loads l" using Inr by (simp add: malformed_def)
    show ?thesis
    proof (cases v)
      case False
      with assms nonblank Inr vd have "seen' = seen"
        and "s' = stats_update (missing_fields_update (\<lambda>n. n + 1)) s1"
        by (auto simp: validate_line_def Let_def)
      moreover have "valid_id loads l = []"
        using False v nonblank Inr by (simp add: valid_id_def)
      ultimately show ?thesis using st1 nonblank nm by simp
    next
      case True
      with vd have "validate_document d n ?s0 = Inr (True, s1)" by simp
      from validate_document_id[OF this] obtain i where i: "py_getitem d ''id'' = Inr (JStr i)"
        by blast
      have vi: "valid_id loads l = [i]"
        using True v nonblank Inr i by (simp add: valid_id_def)
      have e1: "errors s1 = errors ?s0"
        using validate_document_errors[OF vd] True by simp
      let ?s2 = "stats_update (valid_docs_update (\<lambda>n. n + 1)) s1"
      show ?thesis
      proof (cases "i \<in> seen")
        case dup: True
        let ?s3 = "(stats_update (duplicate_ids_update (\<lambda>n. n + 1)) ?s2)
                     \<lparr>errors := errors ?s2 @ [DuplicateId n i]\<rparr>"
        from assms nonblank Inr vd True i dup have "seen' = seen" and "collect_stats d ?s3 = Inr s'"
          by (auto simp: validate_line_def Let_def split: sum.splits)
        from collect_stats_frame[OF this(2)] this(1) show ?thesis
          using st1 e1 nonblank nm vi dup by auto
      next
        case new: False
        from assms nonblank Inr vd True i new have "seen' = insert i seen" and "collect_stats d ?s2 = Inr s'"
          by (auto simp: validate_line_def Let_def split: sum.splits)
        from collect_stats_frame[OF this(2)] this(1) show ?thesis
          using st1 e1 nonblank nm vi new by auto
      qed
    qed
  qed
qed

lemma valid_id_cases: "valid_id loads l = [] \<or> (\<exists>i. valid_id loads l = [i])"
  by (auto simp: valid_id_def split: sum.splits json.splits)

lemma validate_lines_Cons:
  assumes "validate_lines loads n (l # ls) st = Inr st'"
  obtains st1 where "validate_line loads n l st = Inr st1"
    and "validate_lines loads (n + 1) ls st1 = Inr st'"
  using assms by (auto split: sum.splits)

lemma validate_lines_effect:
  assumes "validate_lines loads n ls (seen, s) = Inr (seen', s')"
  shows "total_lines (stats s') = total_lines (stats s) + length ls \<and>
         empty_lines (stats s') = empty_lines (stats s) + length (filter (\<lambda>l. strip l = []) ls) \<and>
         json_errors (stats s') = json_errors (stats s) + length (filter (malformed loads) ls) \<and>
         valid_docs (stats s') = valid_docs (stats s) + length (valid_ids loads ls) \<and>
         missing_fields (stats s') + length (valid_ids loads ls)
             + length (filter (\<lambda>l. strip l = []) ls) + length (filter (malformed loads) ls)
           = missing_fields (stats s) + length ls \<and>
         seen' = seen \<union> set (valid_ids loads ls) \<and>
         (finite seen \<longrightarrow>
            duplicate_ids (stats s') + card seen'
              = duplicate_ids (stats s) + card seen + length (valid_ids loads ls))"
  using assms
proof (induction ls arbitrary: n seen s)
  case Nil
  then show ?case by (simp add: valid_ids_def)
next
  case (Cons l ls)
  from Cons.prems obtain seen1 s1 where
    line: "validate_line loads n l (seen, s) = Inr (seen1, s1)" and
    rest: "validate_lines loads (n + 1) ls (seen1, s1) = Inr (seen', s')"
    by (elim validate_lines_Cons) (cases, auto)
  note e = validate_line_effect[OF line]
  note ih = Cons.IH[OF rest]
  have ids: "valid_ids loads (l # ls) = valid_id loads l @ valid_ids loads ls"
    by (simp add: valid_ids_def)
  from e have
    a1: "total_lines (stats s1) = total_lines (stats s) + 1" and
    a2: "empty_lines (stats s1) = empty_lines (stats s) + (if strip l = [] then 1 else 0)" and
    a3: "json_errors (stats s1) = json_errors (stats s) + (if malformed loads l then 1 else 0)" and
    a4: "valid_docs (stats s1) = valid_docs (stats s) + length (valid_id loads l)" and
    a5: "missing_fields (stats s1) + length (valid_id loads l) + (if strip l = [] then 1 else 0)
             + (if malformed loads l then 1 else 0)
           = missing_fields (stats s) + 1" and
    a6: "seen1 = seen \<union> set (valid_id loads l)" and
    a7: "duplicate_ids (stats s1)
           = duplicate_ids (stats s) + length (filter (\<lambda>i. i \<in> seen) (valid_id loads l))"
    by simp_all
  from ih have
    b1: "total_lines (stats s') = total_lines (stats s1) + length ls" and
    b2: "empty_lines (stats s') = empty_lines (stats s1) + length (filter (\<lambda>l. strip l = []) ls)" and
    b3: "json_errors (stats s') = json_errors (stats s1) + length (filter (malformed loads) ls)" and
    b4: "valid_docs (stats s') = valid_docs (stats s1) + length (valid_ids loads ls)" and
    b5: "missing_fields (stats s') + length (valid_ids loads ls)
             + length (filter (\<lambda>l. strip l = []) ls) + length (filter (malformed loads) ls)
           = missing_fields (stats s1) + length ls" and
    b6: "seen' = seen1 \<union> set (valid_ids loads ls)" and
    b7: "finite seen1 \<longrightarrow>
            duplicate_ids (stats s') + card seen'
              = duplicate_ids (stats s1) + card seen1 + length (valid_ids loads ls)"
    by blast+
  have dup: "duplicate_ids (stats s1) + card seen1
               = duplicate_ids (stats s) + card seen + length (valid_id loads l)"
    if "finite seen"
    using valid_id_cases[of loads l] a6 a7 that by (auto simp: card_insert_if)
  have fin: "finite seen1" if "finite seen"
    using a6 that by simp
  have c1: "total_lines (stats s') = total_lines (stats s) + length (l # ls)"
    using a1 b1 by simp
  have c2: "empty_lines (stats s')
              = empty_lines (stats s) + length (filter (\<lambda>l. strip l = []) (l # ls))"
    using a2 b2 by simp
  have c3: "json_errors (stats s')
              = json_errors (stats s) + length (filter (malformed loads) (l # ls))"
    using a3 b3 by simp
  have c4: "valid_docs (stats s') = valid_docs (stats s) + length (valid_ids loads (l # ls))"
    using a4 b4 ids by simp
  have c5: "missing_fields (stats s') + length (valid_ids loads (l # ls))
             + length (filter (\<lambda>l. strip l = []) (l # ls))
             + length (filter (malformed loads) (l # ls))
           = missing_fields (stats s) + length (l # ls)"
  proof -
    have "length (filter (\<lambda>l. strip l = []) (l # ls))
            = (if strip l = [] then 1 else 0) + length (filter (\<lambda>l. strip l = []) ls)"
      by simp
    moreover have "length (filter (malformed loads) (l # ls))
            = (if malformed loads l then 1 else 0) + length (filter (malformed loads) ls)"
      by simp
    moreover have "length (valid_ids loads (l # ls))
            = length (valid_id loads l) + length (valid_ids loads ls)"
      using ids by simp
    moreover have "length (l # ls) = length ls + 1"
      by simp
    ultimately show ?thesis using a5 b5 by linarith
  qed
  have c6: "seen' = seen \<union> set (valid_ids loads (l # ls))"
    using a6 b6 ids by (simp add: Un_assoc)
  have c7: "duplicate_ids (stats s') + card seen'
              = duplicate_ids (stats s) + card seen + length (valid_ids loads (l # ls))"
    if "finite seen"
    using dup[OF that] fin[OF that] b7 ids by simp
  from c1 c2 c3 c4 c5 c6 c7 show ?case by blast
qed

lemma validate_returns_lines:
  assumes "validate loads fs path = Inr rep" and "fs path = Some content"
  obtains seen' s' where
    "validate_lines loads 1 (lines_of content) ({}, new_validator path) = Inr (seen', s')"
    and "rep = generate_report s'"
  using assms by (auto simp: validate_def Let_def split: sum.splits)

lemma new_validator_stats [simp]:
  "total_lines (stats (new_validator p)) = 0"
  "valid_docs (stats (new_validator p)) = 0"
  "empty_lines (stats (new_validator p)) = 0"
  "json_errors (stats (new_validator p)) = 0"
  "missing_fields (stats (new_validator p)) = 0"
  "duplicate_ids (stats (new_validator p)) = 0"
  "errors (new_validator p) = []"
  by (simp_all add: new_validator_def)

lemma generate_report_fields [simp]:
  "report_stats (generate_report s) = stats s"
  "report_errors (generate_report s) = errors s"
  "validation_passed (generate_report s) = (errors s = [])"
  by (simp_all add: generate_report_def)

lemma validate_partition:
  assumes "validate loads fs path = Inr rep"
  shows "total_lines (report_stats rep)
           = empty_lines (report_stats rep) + json_errors (report_stats rep)
             + missing_fields (report_stats rep) + valid_docs (report_stats rep)"
proof (cases "fs path")
  case None
  with assms have "rep = generate_report ((new_validator path)\<lparr>errors := errors (new_validator path) @ [FileMissing path]\<rparr>)"
    by (simp add: validate_def Let_def)
  then show ?thesis by simp
next
  case (Some content)
  from assms Some obtain seen' s' where
    run: "validate_lines loads 1 (lines_of content) ({}, new_validator path) = Inr (seen', s')"
    and rep: "rep = generate_report s'"
    by (rule validate_returns_lines)
  from validate_lines_effect[OF run] show ?thesis
    unfolding rep by simp
qed

lemma one_repeat:
  assumes "count_list xs a = 2" and "\<forall>x. x \<noteq> a \<longrightarrow> count_list xs x \<le> 1"
  shows "length xs = card (set xs) + 1"
proof -
  have a: "a \<in> set xs"
    using assms(1) count_list_0_iff[of xs a] by auto
  have "length xs = sum (count_list xs) (set xs)"
    by (simp add: sum_count_set)
  also have "\<dots> = count_list xs a + sum (count_list xs) (set xs - {a})"
    using a by (simp add: sum.remove)
  also have "sum (count_list xs) (set xs - {a}) = sum (\<lambda>x. 1) (set xs - {a})"
  proof (rule sum.cong)
    fix x assume x: "x \<in> set xs - {a}"
    then have "count_list xs x \<le> 1" using assms(2) by simp
    moreover have "count_list xs x \<noteq> 0" using x count_list_0_iff[of xs x] by simp
    ultimately show "count_list xs x = 1" by simp
  qed simp
  also have "\<dots> = card (set xs) - 1"
    using a by simp
  finally have "length xs = 2 + (card (set xs) - 1)"
    using assms(1) by simp
  moreover have "0 < card (set xs)"
    using a by (auto simp: card_gt_0_iff)
  ultimately show ?thesis by linarith
qed

text \<open>
  Claim C8.  When the validator returns a report for a file in which exactly two
  structurally valid records share an identifier and no other identifier is repeated, the
  report has \<open>duplicate_ids = 1\<close>.
\<close>

theorem duplicate_id_count:
  assumes "fs path = Some content" and "validate loads fs path = Inr rep"
    and "count_list (valid_ids loads (lines_of content)) doc_id = 2"
    and "\<forall>i. i \<noteq> doc_id \<longrightarrow> count_list (valid_ids loads (lines_of content)) i \<le> 1"
  shows "duplicate_ids (report_stats rep) = 1"
proof -
  let ?ids = "valid_ids loads (lines_of content)"
  from assms(2,1) obtain seen' s' where
    run: "validate_lines loads 1 (lines_of content) ({}, new_validator path) = Inr (seen', s')"
    and rep: "rep = generate_report s'"
    by (rule validate_returns_lines)
  note e = validate_lines_effect[OF run, simplified]
  from e have "seen' = set ?ids" and "duplicate_ids (stats s') + card seen' = length ?ids"
    by blast+
  moreover have "length ?ids = card (set ?ids) + 1"
    using assms(3,4) by (rule one_repeat)
  ultimately show ?thesis unfolding rep by simp
qed

lemma key_present: "map_of kvs k = Some v \<Longrightarrow> k \<in> fst ` set kvs"
  by (auto dest: map_of_SomeD intro: rev_image_eqI)

lemma str_field_SomeD:
  assumes "str_field d k \<noteq> None"
  obtains kvs v where "d = JObj kvs" and "map_of kvs k = Some (JStr v)"
  using assms by (cases d) (auto simp: str_field_def split: option.splits json.splits)

lemma well_formed_obj:
  assumes "well_formed d"
  obtains kvs i t src where "d = JObj kvs"
    and "map_of kvs ''id'' = Some (JStr i)"
    and "map_of kvs ''text'' = Some (JStr t)"
    and "map_of kvs ''source'' = Some (JStr src)"
proof -
  from assms have a: "str_field d ''id'' \<noteq> None" and b: "str_field d ''text'' \<noteq> None"
    and c: "str_field d ''source'' \<noteq> None"
    by (simp_all add: well_formed_def)
  from a obtain kvs i where d: "d = JObj kvs" and i: "map_of kvs ''id'' = Some (JStr i)"
    by (rule str_field_SomeD)
  from b obtain kvs1 t where "d = JObj kvs1" and "map_of kvs1 ''text'' = Some (JStr t)"
    by (rule str_field_SomeD)
  with d have t: "map_of kvs ''text'' = Some (JStr t)" by simp
  from c obtain kvs2 src where "d = JObj kvs2" and "map_of kvs2 ''source'' = Some (JStr src)"
    by (rule str_field_SomeD)
  with d have "map_of kvs ''source'' = Some (JStr src)" by simp
  with d i t that show thesis by blast
qed

lemma check_fields_strings:
  assumes "\<forall>f \<in> set fs. \<exists>v. map_of kvs f = Some (JStr v)"
  shows "\<exists>w'. check_fields (JObj kvs) n fs (m, w) = Inr (m, w')"
  using assms
proof (induction fs arbitrary: w)
  case Nil
  show ?case by simp
next
  case (Cons f fs)
  then obtain v where v: "map_of kvs f = Some (JStr v)" by auto
  then have p: "f \<in> fst ` set kvs" by (rule key_present)
  from Cons have ih: "\<exists>w'. check_fields (JObj kvs) n fs (m, w0) = Inr (m, w')" for w0
    by simp
  show ?case using v p ih by simp
qed

lemma well_formed_validates:
  assumes "well_formed d"
  shows "\<exists>s1. validate_document d n s = Inr (True, s1)"
proof -
  from assms obtain kvs i t src where d: "d = JObj kvs"
    and i: "map_of kvs ''id'' = Some (JStr i)"
    and t: "map_of kvs ''text'' = Some (JStr t)"
    and src: "map_of kvs ''source'' = Some (JStr src)"
    by (rule well_formed_obj)
  have "\<forall>f \<in> set required_fields. \<exists>v. map_of kvs f = Some (JStr v)"
    using i t src by (simp add: required_fields_def)
  then obtain w' where "check_fields d n required_fields ([], warnings s) = Inr ([], w')"
    using check_fields_strings[of required_fields kvs n "[]" "warnings s"] d by blast
  then show ?thesis
    using d i t by (simp add: validate_document_def Let_def)
qed

lemma well_formed_collects:
  assumes "well_formed d"
  shows "\<exists>s'. collect_stats d s = Inr s'"
proof -
  from assms obtain kvs i t src where "d = JObj kvs"
    and "map_of kvs ''id'' = Some (JStr i)"
    and "map_of kvs ''text'' = Some (JStr t)"
    and "map_of kvs ''source'' = Some (JStr src)"
    by (rule well_formed_obj)
  then show ?thesis by (simp add: collect_stats_def)
qed

lemma validate_line_total:
  assumes "strip l = [] \<or> malformed loads l \<or> well_formed_line loads l"
  shows "\<exists>st'. validate_line loads n l st = Inr st'"
proof -
  consider "strip l = []" | "strip l \<noteq> []" "loads l = Inl JSONDecodeError"
    | d where "strip l \<noteq> []" "loads l = Inr d" "well_formed d"
    using assms by (auto simp: malformed_def well_formed_line_def split: sum.splits)
  then show ?thesis
  proof cases
    case 1
    then show ?thesis by (simp add: validate_line_def Let_def)
  next
    case 2
    then show ?thesis by (simp add: validate_line_def Let_def)
  next
    case 3
    let ?s0 = "stats_update (total_lines_update (\<lambda>n. n + 1)) (snd st)"
    from 3(3) obtain s1 where vd: "validate_document d n ?s0 = Inr (True, s1)"
      using well_formed_validates by blast
    from validate_document_id[OF vd] obtain i where i: "py_getitem d ''id'' = Inr (JStr i)"
      by blast
    let ?s2 = "stats_update (valid_docs_update (\<lambda>n. n + 1)) s1"
    let ?s3 = "(stats_update (duplicate_ids_update (\<lambda>n. n + 1)) ?s2)
                 \<lparr>errors := errors ?s2 @ [DuplicateId n i]\<rparr>"
    show ?thesis
    proof (cases "i \<in> fst st")
      case True
      from 3(3) obtain s' where "collect_stats d ?s3 = Inr s'"
        using well_formed_collects by blast
      with 3 vd i True show ?thesis
        by (simp add: validate_line_def Let_def)
    next
      case False
      from 3(3) obtain s' where "collect_stats d ?s2 = Inr s'"
        using well_formed_collects by blast
      with 3 vd i False show ?thesis
        by (simp add: validate_line_def Let_def)
    qed
  qed
qed

lemma validate_lines_total:
  assumes "\<forall>l \<in> set ls. strip l = [] \<or> malformed loads l \<or> well_formed_line loads l"
  shows "\<exists>st'. validate_lines loads n ls st = Inr st'"
  using assms
proof (induction ls arbitrary: n st)
  case Nil
  show ?case by simp
next
  case (Cons l ls)
  then obtain st1 where "validate_line loads n l st = Inr st1"
    using validate_line_total[of l loads n st] by auto
  moreover from Cons obtain st' where "validate_lines loads (n + 1) ls st1 = Inr st'"
    by fastforce
  ultimately show ?case by simp
qed

lemma malformed_numbers_length:
  "length (malformed_numbers loads n ls) = length (filter (malformed loads) ls)"
  by (induction ls arbitrary: n) auto

lemma validate_lines_errors:
  assumes "validate_lines loads n ls (seen, s) = Inr (seen', s')"
    and "\<forall>l \<in> set ls. strip l = [] \<or> malformed loads l \<or> (\<exists>i. valid_id loads l = [i])"
    and "distinct (valid_ids loads ls)"
    and "set (valid_ids loads ls) \<inter> seen = {}"
  shows "errors s' = errors s @ map JsonError (malformed_numbers loads n ls)"
  using assms
proof (induction ls arbitrary: n seen s)
  case Nil
  then show ?case by simp
next
  case (Cons l ls)
  from Cons.prems(1) obtain seen1 s1 where
    line: "validate_line loads n l (seen, s) = Inr (seen1, s1)" and
    rest: "validate_lines loads (n + 1) ls (seen1, s1) = Inr (seen', s')"
    by (elim validate_lines_Cons) (cases, auto)
  note e = validate_line_effect[OF line]
  have ids: "valid_ids loads (l # ls) = valid_id loads l @ valid_ids loads ls"
    by (simp add: valid_ids_def)
  from e have seen1: "seen1 = seen \<union> set (valid_id loads l)" by blast
  have d: "distinct (valid_ids loads ls)"
    using Cons.prems(3) ids by simp
  have disj: "set (valid_ids loads ls) \<inter> seen1 = {}"
    using Cons.prems(3,4) ids seen1 by auto
  have "\<forall>l \<in> set ls. strip l = [] \<or> malformed loads l \<or> (\<exists>i. valid_id loads l = [i])"
    using Cons.prems(2) by simp
  from Cons.IH[OF rest this d disj]
  have ih: "errors s' = errors s1 @ map JsonError (malformed_numbers loads (n + 1) ls)" .
  have "errors s1 = errors s @ map JsonError (if malformed loads l then [n] else [])"
  proof -
    consider "strip l = []" | "malformed loads l" | i where "valid_id loads l = [i]"
      using Cons.prems(2) by auto
    then show ?thesis
    proof cases
      case 1
      then have "\<not> malformed loads l" by (simp add: malformed_def)
      with 1 e show ?thesis by simp
    next
      case 2
      with e show ?thesis by simp
    next
      case 3
      then have "\<not> malformed loads l"
        by (cases "loads l") (auto simp: valid_id_def malformed_def split: if_splits)
      moreover have "i \<notin> seen" using 3 Cons.prems(4) ids by auto
      moreover from e 3 have "errors s1 = errors s @ (if i \<in> seen then [DuplicateId n i] else [])"
        by blast
      ultimately show ?thesis by simp
    qed
  qed
  with ih show ?case by simp
qed

lemma well_formed_line_id:
  assumes "well_formed_line loads l"
  shows "\<exists>i. valid_id loads l = [i]"
proof -
  from assms obtain d where nb: "strip l \<noteq> []" and l: "loads l = Inr d" and wf: "well_formed d"
    by (auto simp: well_formed_line_def split: sum.splits)
  from wf obtain s1 where vd: "validate_document d 0 (new_validator []) = Inr (True, s1)"
    using well_formed_validates by blast
  from validate_document_valid[OF vd] have "structurally_valid d" by simp
  moreover from validate_document_id[OF vd] obtain i where "py_getitem d ''id'' = Inr (JStr i)"
    by blast
  ultimately show ?thesis using nb l by (simp add: valid_id_def)
qed

lemma valid_id_not_well_formed:
  assumes "strip l = [] \<or> malformed loads l"
  shows "valid_id loads l = []" and "\<not> well_formed_line loads l"
  using assms by (auto simp: valid_id_def malformed_def well_formed_line_def)

lemma valid_ids_well_formed_count:
  assumes "\<forall>l \<in> set ls. strip l = [] \<or> malformed loads l \<or> well_formed_line loads l"
  shows "length (valid_ids loads ls) = length (filter (well_formed_line loads) ls)"
  using assms
proof (induction ls)
  case Nil
  show ?case by (simp add: valid_ids_def)
next
  case (Cons l ls)
  then have ih: "length (valid_ids loads ls) = length (filter (well_formed_line loads) ls)"
    by simp
  have ids: "valid_ids loads (l # ls) = valid_id loads l @ valid_ids loads ls"
    by (simp add: valid_ids_def)
  show ?case
  proof (cases "well_formed_line loads l")
    case True
    then obtain i where "valid_id loads l = [i]" using well_formed_line_id by blast
    with True ih ids show ?thesis by simp
  next
    case False
    with Cons.prems have "strip l = [] \<or> malformed loads l" by simp
    from valid_id_not_well_formed[OF this] ih ids show ?thesis by simp
  qed
qed

text \<open>
  Claim C1, as amended.  For a file whose lines are one malformed line (a line that is
  not blank and on which \<open>json.loads\<close> raises \<open>JSONDecodeError\<close>), nine well-formed lines
  with distinct identifiers and any number of blank lines, the validator returns a
  report with \<open>json_errors = 1\<close> and \<open>valid_docs = 9\<close>; the parse failure is the only
  entry of its error list, and \<open>validation_passed\<close> is false.
\<close>

theorem one_bad_line_report:
  assumes "fs path = Some content"
    and "\<forall>l \<in> set (lines_of content).
           strip l = [] \<or> malformed loads l \<or> well_formed_line loads l"
    and "length (filter (malformed loads) (lines_of content)) = 1"
    and "length (filter (well_formed_line loads) (lines_of content)) = 9"
    and "distinct (valid_ids loads (lines_of content))"
  shows "\<exists>rep k. validate loads fs path = Inr rep \<and>
           json_errors (report_stats rep) = 1 \<and>
           valid_docs (report_stats rep) = 9 \<and>
           report_errors rep = [JsonError k] \<and>
           validation_passed rep = False"
proof -
  let ?ls = "lines_of content"
  from validate_lines_total[OF assms(2)] obtain seen' s' where
    run: "validate_lines loads 1 ?ls ({}, new_validator path) = Inr (seen', s')"
    by fastforce
  define rep where "rep = generate_report s'"
  have v: "validate loads fs path = Inr rep"
    using assms(1) run by (simp add: validate_def Let_def rep_def)
  note e = validate_lines_effect[OF run, simplified]
  from e have j: "json_errors (stats s') = length (filter (malformed loads) ?ls)"
    and vd: "valid_docs (stats s') = length (valid_ids loads ?ls)"
    by blast+
  have ids: "\<forall>l \<in> set ?ls. strip l = [] \<or> malformed loads l \<or> (\<exists>i. valid_id loads l = [i])"
    using assms(2) well_formed_line_id by blast
  have "errors s' = errors (new_validator path) @ map JsonError (malformed_numbers loads 1 ?ls)"
    using run ids assms(5) by (rule validate_lines_errors) simp
  then have er: "errors s' = map JsonError (malformed_numbers loads 1 ?ls)" by simp
  have "length (malformed_numbers loads 1 ?ls) = 1"
    using assms(3) by (simp add: malformed_numbers_length)
  then obtain k where "malformed_numbers loads 1 ?ls = [k]"
    by (cases "malformed_numbers loads 1 ?ls") auto
  with er have er1: "errors s' = [JsonError k]" by simp
  have "valid_docs (stats s') = 9"
    using vd valid_ids_well_formed_count[OF assms(2)] assms(4) by simp
  with v j assms(3) er1 show ?thesis by (auto simp: rep_def)
qed

lemma read_chunks_raises:
  assumes "\<forall>x \<in> set pre. strip x \<noteq> [] \<longrightarrow> \<not> isl (loads x)"
    and "strip l \<noteq> []" and "loads l = Inl e"
  shows "read_chunks loads acc (pre @ l # post) = Inl e"
  using assms(1)
proof (induction pre arbitrary: acc)
  case Nil
  show ?case using assms(2,3) by simp
next
  case (Cons x pre)
  then have ih: "read_chunks loads acc' (pre @ l # post) = Inl e" for acc'
    by simp
  from Cons.prems have "strip x = [] \<or> (\<exists>d. loads x = Inr d)"
    by (cases "loads x") auto
  then show ?case using ih by auto
qed

lemma read_chunks_fails:
  assumes "\<exists>l \<in> set ls. strip l \<noteq> [] \<and> isl (loads l)"
  shows "\<exists>x \<in> set ls. \<exists>e. strip x \<noteq> [] \<and> loads x = Inl e \<and> read_chunks loads acc ls = Inl e"
  using assms
proof (induction ls arbitrary: acc)
  case Nil
  then show ?case by simp
next
  case (Cons l ls)
  show ?case
  proof (cases "strip l \<noteq> [] \<and> isl (loads l)")
    case True
    then show ?thesis by (cases "loads l") auto
  next
    case False
    with Cons.prems have "\<exists>l \<in> set ls. strip l \<noteq> [] \<and> isl (loads l)" by auto
    then have ih: "\<exists>x \<in> set ls. \<exists>e. strip x \<noteq> [] \<and> loads x = Inl e \<and>
                     read_chunks loads acc' ls = Inl e" for acc'
      by (rule Cons.IH)
    show ?thesis
    proof (cases "strip l = []")
      case True
      with ih[of acc] show ?thesis by auto
    next
      case nb: False
      with False obtain d where "loads l = Inr d" by (cases "loads l") auto
      with nb ih[of "acc @ [d]"] show ?thesis by auto
    qed
  qed
qed

lemma read_chunks_parsed:
  "\<forall>l \<in> set ls. strip l \<noteq> [] \<longrightarrow> \<not> isl (loads l) \<Longrightarrow>
     read_chunks loads acc ls
       = Inr (acc @ map (\<lambda>l. projr (loads l)) (filter (\<lambda>l. strip l \<noteq> []) ls))"
proof (induction ls arbitrary: acc)
  case Nil
  show ?case by simp
next
  case (Cons l ls)
  then have ih: "read_chunks loads acc' ls
       = Inr (acc' @ map (\<lambda>l. projr (loads l)) (filter (\<lambda>l. strip l \<noteq> []) ls))" for acc'
    by simp
  from Cons.prems have "strip l = [] \<or> (\<exists>d. loads l = Inr d)"
    by (cases "loads l") auto
  then show ?case using ih by auto
qed

lemma lines_of_line:
  "CHR 0x0A \<notin> set xs \<Longrightarrow> lines_of (xs @ CHR 0x0A # rest) = (xs @ [CHR 0x0A]) # lines_of rest"
  by (induction xs) auto

lemma strip_nonblank:
  assumes "c \<in> set s" and "\<not> isspace c"
  shows "strip s \<noteq> []"
proof -
  have "c \<notin> set (takeWhile isspace s)"
    using assms(2) by (auto dest: set_takeWhileD)
  moreover have "set s = set (takeWhile isspace s) \<union> set (dropWhile isspace s)"
    by (metis set_append takeWhile_dropWhile_id)
  ultimately have "c \<in> set (rev (dropWhile isspace s))"
    using assms(1) by simp
  with assms(2) have "dropWhile isspace (rev (dropWhile isspace s)) \<noteq> []"
    unfolding dropWhile_eq_Nil_conv by blast
  then show ?thesis by (simp add: strip_def)
qed

lemma big_number_line_facts:
  "lines_of big_number_line = [big_number_line]"
  "strip big_number_line \<noteq> []"
  "sample_loads big_number_line = Inl ValueError"
proof -
  have \<open>CHR 0x0A \<notin> set (''{"a": '' @ replicate 4301 CHR ''1'')\<close>
    by (simp)
  from lines_of_line[OF this, of "[]"]
  show "lines_of big_number_line = [big_number_line]"
    by (simp add: big_number_line_def)
  have "CHR ''{'' \<in> set big_number_line"
    by (simp add: big_number_line_def)
  moreover have "\<not> isspace CHR ''{''" by code_simp
  ultimately show "strip big_number_line \<noteq> []" by (rule strip_nonblank)
  have \<open>take 4 big_number_line = ''{"a"''\<close>
    by (simp add: big_number_line_def)
  then show "sample_loads big_number_line = Inl ValueError"
    by (simp add: sample_loads_def)
qed

lemma text_length_loadable: "loadable chunk \<Longrightarrow> \<exists>n. text_length chunk = Inr n"
  by (cases chunk)
     (auto simp: loadable_def has_len_def text_length_def split: option.splits json.splits)

lemma map_result_total:
  "\<forall>x \<in> set xs. \<exists>y. f x = Inr y \<Longrightarrow> \<exists>ys. map_result f xs = Inr ys"
proof (induction xs)
  case Nil
  show ?case by simp
next
  case (Cons x xs)
  then obtain y ys where "f x = Inr y" and "map_result f xs = Inr ys" by auto
  then show ?case by simp
qed

lemma validate_lines_append:
  "validate_lines loads n (xs @ ys) st =
     (case validate_lines loads n xs st of
        Inl e \<Rightarrow> Inl e
      | Inr st1 \<Rightarrow> validate_lines loads (n + length xs) ys st1)"
  by (induction xs arbitrary: n st) (auto split: sum.splits)

lemma validate_line_errors_grow:
  assumes "validate_line loads n l (seen, s) = Inr (seen', s')"
  shows "prefix (errors s) (errors s')"
proof (cases "strip l = [] \<or> malformed loads l")
  case True
  with validate_line_effect[OF assms] show ?thesis by auto
next
  case False
  then have nb: "strip l \<noteq> []" and ne: "loads l \<noteq> Inl JSONDecodeError"
    by (auto simp: malformed_def)
  from assms nb ne obtain d where d: "loads l = Inr d"
    by (cases "loads l") (auto simp: validate_line_def Let_def split: if_splits)
  let ?s0 = "stats_update (total_lines_update (\<lambda>n. n + 1)) s"
  from assms nb d obtain v s1 where vd: "validate_document d n ?s0 = Inr (v, s1)"
    by (auto simp: validate_line_def Let_def split: sum.splits)
  show ?thesis
  proof (cases v)
    case True
    with vd have "validate_document d n ?s0 = Inr (True, s1)" by simp
    from validate_document_id[OF this] obtain i where i: "py_getitem d ''id'' = Inr (JStr i)"
      by blast
    have "structurally_valid d" using validate_document_valid[OF vd] True by simp
    then have "valid_id loads l = [i]" using nb d i by (simp add: valid_id_def)
    with validate_line_effect[OF assms] show ?thesis by auto
  next
    case False
    with assms nb d vd have "s' = stats_update (missing_fields_update (\<lambda>n. n + 1)) s1"
      by (auto simp: validate_line_def Let_def)
    moreover from validate_document_errors[OF vd] False
    obtain m where "errors s1 = errors ?s0 @ [MissingFields n m]" by auto
    ultimately show ?thesis by simp
  qed
qed

lemma validate_lines_errors_grow:
  "validate_lines loads n ls (seen, s) = Inr (seen', s') \<Longrightarrow> prefix (errors s) (errors s')"
proof (induction ls arbitrary: n seen s)
  case Nil
  then show ?case by simp
next
  case (Cons l ls)
  from Cons.prems obtain seen1 s1 where
    line: "validate_line loads n l (seen, s) = Inr (seen1, s1)" and
    rest: "validate_lines loads (n + 1) ls (seen1, s1) = Inr (seen', s')"
    by (elim validate_lines_Cons) (cases, auto)
  from validate_line_errors_grow[OF line] Cons.IH[OF rest] show ?case
    by (rule prefix_order.trans)
qed

lemma one_bad_line_lines_of: "lines_of (concat one_bad_line_lines) = one_bad_line_lines"
  by code_simp

lemma duplicate_id_lines_of: "lines_of (concat duplicate_id_lines) = duplicate_id_lines"
  by code_simp

text \<open>The file of ten lines whose third line is not JSON.\<close>

theorem one_bad_line_witness:
  "length (filter (malformed sample_loads) (lines_of (concat one_bad_line_lines))) = 1 \<and>
   length (filter (well_formed_line sample_loads) (lines_of (concat one_bad_line_lines))) = 9 \<and>
   \<not> isl (validate sample_loads [''data.jsonl'' \<mapsto> concat one_bad_line_lines] ''data.jsonl'') \<and>
   \<not> validation_passed
       (projr (validate sample_loads [''data.jsonl'' \<mapsto> concat one_bad_line_lines] ''data.jsonl''))"
proof -
  let ?fs = "[''data.jsonl'' \<mapsto> concat one_bad_line_lines]"
  have 1: "?fs ''data.jsonl'' = Some (concat one_bad_line_lines)" by simp
  have 2: "\<forall>l \<in> set (lines_of (concat one_bad_line_lines)).
             strip l = [] \<or> malformed sample_loads l \<or> well_formed_line sample_loads l"
    unfolding one_bad_line_lines_of by code_simp
  have 3: "length (filter (malformed sample_loads) (lines_of (concat one_bad_line_lines))) = 1"
    unfolding one_bad_line_lines_of by code_simp
  have 4: "length (filter (well_formed_line sample_loads) (lines_of (concat one_bad_line_lines))) = 9"
    unfolding one_bad_line_lines_of by code_simp
  have 5: "distinct (valid_ids sample_loads (lines_of (concat one_bad_line_lines)))"
    unfolding one_bad_line_lines_of by code_simp
  from one_bad_line_report[of ?fs "''data.jsonl''" "concat one_bad_line_lines" sample_loads,
      OF 1 2 3 4 5] 3 4
  show ?thesis by auto
qed

text \<open>Claim C1 as stated fails on that file: the report has \<open>json_errors = 1\<close> and
  \<open>valid_docs = 9\<close>, and \<open>validation_passed\<close> is \<open>False\<close>, not \<open>True\<close>.\<close>

theorem one_bad_line_counterexample:
  "length (filter (malformed sample_loads) one_bad_line_lines) = 1 \<and>
   length (filter (well_formed_line sample_loads) one_bad_line_lines) = 9 \<and>
   length one_bad_line_lines = 10 \<and>
   distinct (valid_ids sample_loads one_bad_line_lines) \<and>
   lines_of (concat one_bad_line_lines) = one_bad_line_lines \<and>
   validate sample_loads [''data.jsonl'' \<mapsto> concat one_bad_line_lines] ''data.jsonl'' =
     Inr \<lparr>report_file_path = ''data.jsonl'', validation_passed = False,
          report_stats =
            \<lparr>total_lines = 10, valid_docs = 9, empty_lines = 0, json_errors = 1,
             missing_fields = 0, duplicate_ids = 0,
             text_lengths = [12, 12, 12, 12, 12, 12, 12, 12, 12],
             id_patterns = [(''A_A'', 9)], source_patterns = [(''A.A'', 9)]\<rparr>,
          text_length_stats = Some \<lparr>ls_min = 12, ls_max = 12, ls_avg = 12, ls_median = 12\<rparr>,
          report_errors = [JsonError 3], report_warnings = []\<rparr>"
  by code_simp

text \<open>Three records, the first and the third with the identifier \<open>doc_000001\<close>.\<close>

theorem duplicate_id_witness:
  "count_list (valid_ids sample_loads (lines_of (concat duplicate_id_lines))) ''doc_000001'' = 2 \<and>
   duplicate_ids (report_stats
     (projr (validate sample_loads [''data.jsonl'' \<mapsto> concat duplicate_id_lines] ''data.jsonl''))) = 1"
proof -
  let ?fs = "[''data.jsonl'' \<mapsto> concat duplicate_id_lines]"
  have 1: "?fs ''data.jsonl'' = Some (concat duplicate_id_lines)" by simp
  have "\<not> isl (validate sample_loads ?fs ''data.jsonl'')" by code_simp
  then have 2: "validate sample_loads ?fs ''data.jsonl''
                  = Inr (projr (validate sample_loads ?fs ''data.jsonl''))"
    by (cases "validate sample_loads ?fs ''data.jsonl''") simp_all
  have ids: "valid_ids sample_loads (lines_of (concat duplicate_id_lines))
               = [''doc_000001'', ''doc_000002'', ''doc_000001'']"
    unfolding duplicate_id_lines_of by code_simp
  have 3: "count_list (valid_ids sample_loads (lines_of (concat duplicate_id_lines))) ''doc_000001'' = 2"
    unfolding ids by simp
  have 4: "\<forall>i. i \<noteq> ''doc_000001'' \<longrightarrow>
             count_list (valid_ids sample_loads (lines_of (concat duplicate_id_lines))) i \<le> 1"
    unfolding ids by simp
  from duplicate_id_count[of ?fs "''data.jsonl''" "concat duplicate_id_lines" sample_loads _ "''doc_000001''",
      OF 1 2 3 4] 3
  show ?thesis by simp
qed

text \<open>
  Claim C10.  A record whose \<open>id\<close> is a number gets the warning that the field should be
  a string, and then \<open>re.match\<close> raises on it: the run ends with \<open>TypeError\<close> and returns no
  report, after the line has been counted in \<open>total_lines\<close> and in none of the four
  buckets.  (For every run that returns a report the counters do partition the lines:
  that is \<open>validate_partition\<close> above.)
\<close>

theorem numeric_id_aborts:
  "sample_loads numeric_id_line
     = Inr (JObj [(''id'', JInt 5), (''text'', JStr ''0123456789''), (''source'', JStr ''s'')]) \<and>
   validate sample_loads [''data.jsonl'' \<mapsto> numeric_id_line] ''data.jsonl'' = Inl TypeError"
  by code_simp

section \<open>Malformed lines, and the chunk loader\<close>

text \<open>
  Claim C6, as amended.  Take a line of the input file that is not blank and on which
  \<open>json.loads\<close> raises the exception \<open>e\<close>.  The vectorizer's \<open>load_chunks\<close> fails: with
  \<open>e\<close> when no earlier line makes the parser raise, and with \<open>JSONDecodeError\<close> when that is
  the only exception the parser raises on the lines of the file.  The validator reaches
  the line when the lines before it raise nothing; it catches \<open>JSONDecodeError\<close> only.  For
  that exception it counts the line in \<open>total_lines\<close> and \<open>json_errors\<close>, appends the error
  message with the line's number and goes on with the lines that follow; for any other
  exception its run ends there with \<open>e\<close> and returns no report.  A report the validator
  returns counts every malformed line in \<open>json_errors\<close> and holds the message, and the
  validator does return a report when every other line is blank, malformed or a
  well-formed record.
\<close>

theorem malformed_line_policy:
  assumes "files w (input_file self) = Some content"
    and "lines_of content = pre @ l # post"
    and "strip l \<noteq> []"
    and "json_loads ext l = Inl e"
  shows "(\<exists>e'. load_chunks ext self w = Inl e') \<and>
         ((\<forall>x \<in> set pre. strip x \<noteq> [] \<longrightarrow> \<not> isl (json_loads ext x)) \<longrightarrow>
            load_chunks ext self w = Inl e) \<and>
         ((\<forall>x \<in> set (lines_of content). \<forall>e'.
              strip x \<noteq> [] \<and> json_loads ext x = Inl e' \<longrightarrow> e' = JSONDecodeError) \<longrightarrow>
            load_chunks ext self w = Inl JSONDecodeError) \<and>
         (\<forall>st. validate_lines (json_loads ext) 1 (lines_of content) st =
            (case validate_lines (json_loads ext) 1 pre st of
               Inl e' \<Rightarrow> Inl e'
             | Inr st1 \<Rightarrow>
                 if e = JSONDecodeError
                 then validate_lines (json_loads ext) (length pre + 2) post
                        (fst st1,
                         (stats_update
                            (json_errors_update (\<lambda>k. k + 1) \<circ> total_lines_update (\<lambda>k. k + 1))
                            (snd st1))
                           \<lparr>errors := errors (snd st1) @ [JsonError (length pre + 1)]\<rparr>)
                 else Inl e)) \<and>
         (e \<noteq> JSONDecodeError \<longrightarrow>
            (\<exists>e'. validate (json_loads ext) (files w) (input_file self) = Inl e')) \<and>
         (\<forall>rep. validate (json_loads ext) (files w) (input_file self) = Inr rep \<longrightarrow>
            e = JSONDecodeError \<and>
            json_errors (report_stats rep)
              = length (filter (malformed (json_loads ext)) (lines_of content)) \<and>
            0 < json_errors (report_stats rep) \<and>
            JsonError (length pre + 1) \<in> set (report_errors rep)) \<and>
         (e = JSONDecodeError \<and>
          (\<forall>x \<in> set (pre @ post).
             strip x = [] \<or> malformed (json_loads ext) x \<or> well_formed_line (json_loads ext) x) \<longrightarrow>
            (\<exists>rep. validate (json_loads ext) (files w) (input_file self) = Inr rep))"
proof -
  let ?loads = "json_loads ext"
  let ?next = "\<lambda>st1. (fst st1,
                 (stats_update (json_errors_update (\<lambda>k. k + 1) \<circ> total_lines_update (\<lambda>k. k + 1))
                    (snd st1))
                   \<lparr>errors := errors (snd st1) @ [JsonError (length pre + 1)]\<rparr>)"
  have "\<exists>x \<in> set (lines_of content). strip x \<noteq> [] \<and> isl (?loads x)"
    using assms(2,3,4) by auto
  from read_chunks_fails[OF this, of "[]"] obtain x e' where
    x: "x \<in> set (lines_of content)" "strip x \<noteq> []" "?loads x = Inl e'" and
    rx: "read_chunks ?loads [] (lines_of content) = Inl e'"
    by blast
  from rx have lx: "load_chunks ext self w = Inl e'"
    using assms(1) by (simp add: load_chunks_def)
  then have a1: "\<exists>e'. load_chunks ext self w = Inl e'" by blast
  have a2: "load_chunks ext self w = Inl e"
    if "\<forall>x \<in> set pre. strip x \<noteq> [] \<longrightarrow> \<not> isl (?loads x)"
  proof -
    have "read_chunks ?loads [] (pre @ l # post) = Inl e"
      using that assms(3,4) by (rule read_chunks_raises)
    then show ?thesis using assms(1,2) by (simp add: load_chunks_def)
  qed
  have a3: "load_chunks ext self w = Inl JSONDecodeError"
    if "\<forall>x \<in> set (lines_of content). \<forall>e'.
          strip x \<noteq> [] \<and> ?loads x = Inl e' \<longrightarrow> e' = JSONDecodeError"
    using that x lx by blast
  have line: "validate_line ?loads n l st =
          (if e = JSONDecodeError
           then Inr (fst st,
                 (stats_update (json_errors_update (\<lambda>k. k + 1) \<circ> total_lines_update (\<lambda>k. k + 1))
                    (snd st))
                   \<lparr>errors := errors (snd st) @ [JsonError n]\<rparr>)
           else Inl e)" for n st
    using assms(3,4) by (simp add: validate_line_def Let_def)
  have b: "validate_lines ?loads 1 (lines_of content) st =
            (case validate_lines ?loads 1 pre st of
               Inl e' \<Rightarrow> Inl e'
             | Inr st1 \<Rightarrow>
                 if e = JSONDecodeError
                 then validate_lines ?loads (length pre + 2) post (?next st1)
                 else Inl e)" for st
    unfolding assms(2) validate_lines_append
    by (simp add: line split: sum.splits)
  have m: "malformed ?loads l" if "e = JSONDecodeError"
    using that assms(3,4) by (simp add: malformed_def)
  have c: "e = JSONDecodeError \<and>
           json_errors (report_stats rep) = length (filter (malformed ?loads) (lines_of content)) \<and>
           0 < json_errors (report_stats rep) \<and>
           JsonError (length pre + 1) \<in> set (report_errors rep)"
    if v: "validate ?loads (files w) (input_file self) = Inr rep" for rep
  proof -
    from v assms(1) obtain seen' s' where
      run: "validate_lines ?loads 1 (lines_of content) ({}, new_validator (input_file self))
              = Inr (seen', s')"
      and rep: "rep = generate_report s'"
      by (rule validate_returns_lines)
    let ?st0 = "({}, new_validator (input_file self))"
    from run b[of ?st0] have e: "e = JSONDecodeError"
      by (auto split: sum.splits if_splits)
    note eff = validate_lines_effect[OF run, simplified]
    from eff have j: "json_errors (stats s') = length (filter (malformed ?loads) (lines_of content))"
      by blast
    have pos: "0 < length (filter (malformed ?loads) (lines_of content))"
      using assms(2) m[OF e] by simp
    from run b[of ?st0] e obtain st1 where
      p: "validate_lines ?loads 1 pre ?st0 = Inr st1" and
      q: "validate_lines ?loads (length pre + 2) post (?next st1) = Inr (seen', s')"
      by (auto split: sum.splits)
    from validate_lines_errors_grow[OF q]
    have "prefix (errors (snd st1) @ [JsonError (length pre + 1)]) (errors s')" by simp
    then have "JsonError (length pre + 1) \<in> set (errors s')"
      by (auto simp: prefix_def)
    with e j pos show ?thesis unfolding rep by simp
  qed
  have d: "\<exists>e'. validate ?loads (files w) (input_file self) = Inl e'" if "e \<noteq> JSONDecodeError"
  proof (cases "validate ?loads (files w) (input_file self)")
    case (Inl e')
    then show ?thesis by blast
  next
    case (Inr rep)
    from c[OF this] that show ?thesis by simp
  qed
  have t: "\<exists>rep. validate ?loads (files w) (input_file self) = Inr rep"
    if e: "e = JSONDecodeError"
      and o: "\<forall>x \<in> set (pre @ post).
                strip x = [] \<or> malformed ?loads x \<or> well_formed_line ?loads x"
  proof -
    have "\<forall>x \<in> set (lines_of content).
            strip x = [] \<or> malformed ?loads x \<or> well_formed_line ?loads x"
      unfolding assms(2) using o m[OF e] by auto
    from validate_lines_total[OF this, of 1 "({}, new_validator (input_file self))"]
    obtain st' where
      "validate_lines ?loads 1 (lines_of content) ({}, new_validator (input_file self)) = Inr st'"
      by blast
    then show ?thesis
      using assms(1) by (cases st') (simp add: validate_def Let_def)
  qed
  from a1 a2 a3 b c d t show ?thesis by blast
qed

text \<open>The file of ten lines whose third line is not JSON, and the file of one line whose
  number is too long, read by both tools.\<close>

theorem malformed_line_witness:
  "strip (''{not json'' @ [CHR 0x0A]) \<noteq> [] \<and>
   json_loads sample_external (''{not json'' @ [CHR 0x0A]) = Inl JSONDecodeError \<and>
   load_chunks sample_external sample_vectorizer (sample_world (concat one_bad_line_lines))
     = Inl JSONDecodeError \<and>
   \<not> isl (validate sample_loads [''data.jsonl'' \<mapsto> concat one_bad_line_lines] ''data.jsonl'') \<and>
   JsonError 3 \<in> set (report_errors (projr
     (validate sample_loads [''data.jsonl'' \<mapsto> concat one_bad_line_lines] ''data.jsonl''))) \<and>
   strip big_number_line \<noteq> [] \<and>
   json_loads sample_external big_number_line = Inl ValueError \<and>
   load_chunks sample_external sample_vectorizer (sample_world big_number_line) = Inl ValueError \<and>
   isl (validate sample_loads [''data.jsonl'' \<mapsto> big_number_line] ''data.jsonl'')"
proof -
  let ?w = "sample_world (concat one_bad_line_lines)"
  let ?pre = "map sample_line (take 2 sample_ids)"
  let ?post = "map sample_line (drop 2 sample_ids)"
  let ?l = "''{not json'' @ [CHR 0x0A]"
  let ?v = "validate sample_loads [''data.jsonl'' \<mapsto> concat one_bad_line_lines] ''data.jsonl''"
  have l: "json_loads sample_external = sample_loads"
    by (simp add: sample_external_def)
  have p: "input_file sample_vectorizer = ''data.jsonl''"
    by (simp add: sample_vectorizer_def)
  have f: "files (sample_world c) = [''data.jsonl'' \<mapsto> c]" for c
    by (simp add: sample_world_def)
  have 1: "files ?w (input_file sample_vectorizer) = Some (concat one_bad_line_lines)"
    by (simp add: f p)
  have 2: "lines_of (concat one_bad_line_lines) = ?pre @ ?l # ?post"
    unfolding one_bad_line_lines_of by (simp add: one_bad_line_lines_def)
  have 3: "strip ?l \<noteq> []" by code_simp
  have 4: "json_loads sample_external ?l = Inl JSONDecodeError" by code_simp
  have 5: "\<forall>x \<in> set ?pre. strip x \<noteq> [] \<longrightarrow> \<not> isl (json_loads sample_external x)"
    by code_simp
  have 6: "\<forall>x \<in> set (?pre @ ?post). strip x = [] \<or> malformed (json_loads sample_external) x \<or>
             well_formed_line (json_loads sample_external) x"
    by code_simp
  note t1 = malformed_line_policy[of ?w sample_vectorizer "concat one_bad_line_lines" ?pre ?l ?post
      sample_external JSONDecodeError, OF 1 2 3 4, unfolded f l p]
  from t1 5 have a: "load_chunks sample_external sample_vectorizer ?w = Inl JSONDecodeError"
    unfolding l by blast
  from t1 6 obtain rep where v: "?v = Inr rep"
    unfolding l by blast
  have n: "length ?pre + 1 = 3" by (simp add: sample_ids_def)
  from t1 v have "JsonError (length ?pre + 1) \<in> set (report_errors rep)"
    by blast
  then have b: "JsonError 3 \<in> set (report_errors (projr ?v))"
    unfolding n v by simp
  let ?w2 = "sample_world big_number_line"
  have 7: "files ?w2 (input_file sample_vectorizer) = Some big_number_line"
    by (simp add: f p)
  have 8: "lines_of big_number_line = [] @ big_number_line # []"
    by (simp add: big_number_line_facts)
  have 9: "json_loads sample_external big_number_line = Inl ValueError"
    by (simp add: l big_number_line_facts)
  note t2 = malformed_line_policy[of ?w2 sample_vectorizer big_number_line "[]" big_number_line "[]"
      sample_external ValueError, OF 7 8 big_number_line_facts(2) 9, unfolded f l p]
  from t2 have c: "load_chunks sample_external sample_vectorizer ?w2 = Inl ValueError"
    by simp
  from t2 have "\<exists>e'. validate sample_loads [''data.jsonl'' \<mapsto> big_number_line] ''data.jsonl'' = Inl e'"
    by simp
  then have d: "isl (validate sample_loads [''data.jsonl'' \<mapsto> big_number_line] ''data.jsonl'')"
    by auto
  from 3 4 a b c d v 9 big_number_line_facts(2) show ?thesis by simp
qed

text \<open>
  Claim C6 as stated fails on two files.  In the first a line that is not JSON is
  followed by a record whose \<open>id\<close> is a number: the validator counts the first line and
  then raises \<open>TypeError\<close> on the second, so its run does abort.  The second holds one line
  that is not JSON and whose number has 4301 digits: \<open>json.loads\<close> raises \<open>ValueError\<close> on
  it, so the loader does not fail with a JSON decoding error, and the validator, which
  catches \<open>JSONDecodeError\<close> only, aborts as well.
\<close>

theorem malformed_line_counterexample:
  "lines_of ((''{not json'' @ [CHR 0x0A]) @ numeric_id_line)
     = [''{not json'' @ [CHR 0x0A], numeric_id_line] \<and>
   malformed sample_loads (''{not json'' @ [CHR 0x0A]) \<and>
   load_chunks sample_external sample_vectorizer
     (sample_world ((''{not json'' @ [CHR 0x0A]) @ numeric_id_line)) = Inl JSONDecodeError \<and>
   validate sample_loads [''data.jsonl'' \<mapsto> (''{not json'' @ [CHR 0x0A]) @ numeric_id_line]
     ''data.jsonl'' = Inl TypeError \<and>
   lines_of big_number_line = [big_number_line] \<and>
   strip big_number_line \<noteq> [] \<and>
   json_loads sample_external big_number_line = Inl ValueError \<and>
   load_chunks sample_external sample_vectorizer (sample_world big_number_line) = Inl ValueError \<and>
   validate sample_loads [''data.jsonl'' \<mapsto> big_number_line] ''data.jsonl'' = Inl ValueError"
proof -
  have a: "lines_of ((''{not json'' @ [CHR 0x0A]) @ numeric_id_line)
             = [''{not json'' @ [CHR 0x0A], numeric_id_line] \<and>
           malformed sample_loads (''{not json'' @ [CHR 0x0A]) \<and>
           load_chunks sample_external sample_vectorizer
             (sample_world ((''{not json'' @ [CHR 0x0A]) @ numeric_id_line)) = Inl JSONDecodeError \<and>
           validate sample_loads [''data.jsonl'' \<mapsto> (''{not json'' @ [CHR 0x0A]) @ numeric_id_line]
             ''data.jsonl'' = Inl TypeError"
    by code_simp
  have l: "json_loads sample_external = sample_loads"
    by (simp add: sample_external_def)
  have b: "load_chunks sample_external sample_vectorizer (sample_world big_number_line)
             = Inl ValueError"
    by (simp add: load_chunks_def sample_world_def sample_vectorizer_def l big_number_line_facts)
  have c: "validate sample_loads [''data.jsonl'' \<mapsto> big_number_line] ''data.jsonl'' = Inl ValueError"
    by (simp add: validate_def validate_line_def Let_def big_number_line_facts)
  from a b c l big_number_line_facts show ?thesis by simp
qed

lemma map_result_text_length:
  assumes "\<forall>c \<in> set chunks. loadable c"
  shows "\<exists>ns. map_result text_length chunks = Inr ns"
  using assms text_length_loadable by (intro map_result_total) blast

text \<open>
  Claim C7, as amended.  For an input file in which every non-blank line parses as a JSON
  object whose \<open>text\<close> entry, when present, is a string, an array or an object,
  \<open>load_chunks\<close> returns a sequence whose length is the number of non-blank lines, made
  of the parsed objects in file order.
\<close>

theorem load_chunks_sequence:
  assumes "files w (input_file self) = Some content"
    and "\<forall>l \<in> set (lines_of content).
           strip l \<noteq> [] \<longrightarrow> (\<exists>chunk. json_loads ext l = Inr chunk \<and> loadable chunk)"
  shows "\<exists>chunks. load_chunks ext self w = Inr chunks \<and>
           length chunks = length (filter (\<lambda>l. strip l \<noteq> []) (lines_of content)) \<and>
           map Inr chunks = map (json_loads ext) (filter (\<lambda>l. strip l \<noteq> []) (lines_of content))"
proof -
  let ?loads = "json_loads ext"
  let ?ls = "filter (\<lambda>l. strip l \<noteq> []) (lines_of content)"
  let ?chunks = "map (\<lambda>l. projr (?loads l)) ?ls"
  have "\<forall>l \<in> set (lines_of content). strip l \<noteq> [] \<longrightarrow> \<not> isl (?loads l)"
    using assms(2) by auto
  then have r: "read_chunks ?loads [] (lines_of content) = Inr ?chunks"
    using read_chunks_parsed[of "lines_of content" ?loads "[]"] by simp
  have "\<forall>c \<in> set ?chunks. loadable c"
    using assms(2) by auto
  then obtain ns where "map_result text_length ?chunks = Inr ns"
    using map_result_text_length by blast
  with r assms(1) have "load_chunks ext self w = Inr ?chunks"
    by (simp add: load_chunks_def)
  moreover have "map Inr ?chunks = map ?loads ?ls"
    using assms(2) by auto
  ultimately show ?thesis by simp
qed

text \<open>A file of three records.\<close>

theorem load_chunks_witness:
  "load_chunks sample_external sample_vectorizer (sample_world (concat duplicate_id_lines))
     = Inr [sample_doc ''doc_000001'', sample_doc ''doc_000002'', sample_doc ''doc_000001'']"
proof -
  let ?w = "sample_world (concat duplicate_id_lines)"
  have 1: "files ?w (input_file sample_vectorizer) = Some (concat duplicate_id_lines)"
    by (simp add: sample_world_def sample_vectorizer_def)
  have 2: "\<forall>l \<in> set (lines_of (concat duplicate_id_lines)).
             strip l \<noteq> [] \<longrightarrow> (\<exists>chunk. json_loads sample_external l = Inr chunk \<and> loadable chunk)"
  proof -
    have "\<forall>l \<in> set duplicate_id_lines.
            \<not> isl (json_loads sample_external l) \<and> loadable (projr (json_loads sample_external l))"
      by code_simp
    then show ?thesis unfolding duplicate_id_lines_of
      by (metis sum.collapse(2))
  qed
  have 3: "map (json_loads sample_external)
             (filter (\<lambda>l. strip l \<noteq> []) (lines_of (concat duplicate_id_lines)))
           = map Inr [sample_doc ''doc_000001'', sample_doc ''doc_000002'', sample_doc ''doc_000001'']"
    unfolding duplicate_id_lines_of by code_simp
  from load_chunks_sequence[of ?w sample_vectorizer "concat duplicate_id_lines" sample_external,
      OF 1 2]
  obtain chunks where c: "load_chunks sample_external sample_vectorizer ?w = Inr chunks"
    and m: "map Inr chunks = map (json_loads sample_external)
             (filter (\<lambda>l. strip l \<noteq> []) (lines_of (concat duplicate_id_lines)))"
    by blast
  from m 3 have "chunks = [sample_doc ''doc_000001'', sample_doc ''doc_000002'', sample_doc ''doc_000001'']"
    by (simp add: map_eq_Cons_conv) 
  with c show ?thesis by simp
qed

text \<open>Claim C7 as stated fails for a record whose \<open>text\<close> is a number: the line parses as
  a JSON object, and the statistics table of \<open>load_chunks\<close> raises on \<open>len(5)\<close>.\<close>

theorem load_chunks_counterexample:
  "lines_of numeric_text_line = [numeric_text_line] \<and>
   strip numeric_text_line \<noteq> [] \<and>
   json_loads sample_external numeric_text_line
     = Inr (JObj [(''id'', JStr ''a''), (''text'', JInt 5), (''source'', JStr ''s'')]) \<and>
   load_chunks sample_external sample_vectorizer (sample_world numeric_text_line) = Inl TypeError"
  by code_simp

section \<open>The MCP server\<close>

lemma remember_success:
  assumes "add_appends (memory_add ext)"
    and "remember ext srv memory_text w = (resp, w')" and "success resp"
  shows "\<exists>rows embedding.
           collections w (chromadb_path srv, memory_collection srv) = Some rows \<and>
           model_encode ext memory_text = Some embedding \<and>
           w' = w\<lparr>collections := (collections w)((chromadb_path srv, memory_collection srv) \<mapsto>
                  rows @ [\<lparr>row_id = JStr (''memory_'' @ uuid4 ext), row_embedding = embedding,
                           row_document = JStr memory_text,
                           row_metadata = JObj [(''source'', JStr ''user_memory''),
                                                (''timestamp_utc'', JStr (utcnow ext))]\<rparr>])\<rparr> \<and>
           resp = Stored ''Memory stored successfully.'' (''memory_'' @ uuid4 ext)"
proof -
  let ?key = "(chromadb_path srv, memory_collection srv)"
  from assms(2,3) obtain embedding where e: "model_encode ext memory_text = Some embedding"
    by (cases "model_encode ext memory_text") (auto simp: remember_def Let_def)
  from assms(2,3) e obtain rows where r: "collections w ?key = Some rows"
    by (cases "collections w ?key") (auto simp: remember_def Let_def)
  let ?req = "\<lparr>ids = [JStr (''memory_'' @ uuid4 ext)], embeddings = [embedding],
                documents = [JStr memory_text],
                metadatas = [JObj [(''source'', JStr ''user_memory''),
                                   (''timestamp_utc'', JStr (utcnow ext))]]\<rparr>"
  from assms(2,3) e r obtain rows' where a: "memory_add ext rows ?req = Some rows'"
    by (cases "memory_add ext rows ?req") (auto simp: remember_def Let_def)
  from assms(1) a have "rows' = rows @ request_rows ?req"
    by (auto simp: add_appends_def)
  then have "rows' = rows @ [\<lparr>row_id = JStr (''memory_'' @ uuid4 ext), row_embedding = embedding,
                           row_document = JStr memory_text,
                           row_metadata = JObj [(''source'', JStr ''user_memory''),
                                                (''timestamp_utc'', JStr (utcnow ext))]\<rparr>]"
    by (simp add: request_rows_def)
  with assms(2) e r a show ?thesis
    by (auto simp: remember_def Let_def)
qed

lemma remember_keeps_rows:
  assumes "add_appends (memory_add ext)"
    and "remember ext srv memory_text w = (resp, w')"
    and "collections w key = Some rows"
  shows "\<exists>rows'. collections w' key = Some rows' \<and> prefix rows rows'"
proof (cases "success resp")
  case True
  from remember_success[OF assms(1,2) True] assms(3) show ?thesis
    by (cases "key = (chromadb_path srv, memory_collection srv)") auto
next
  case False
  with assms(2) have "w' = w"
    by (auto simp: remember_def Let_def split: option.splits)
  with assms(3) show ?thesis by simp
qed

text \<open>
  Claim C9.  With a database whose successful \<open>add\<close> appends the rows it is given: a call
  of \<open>remember\<close> that reports success has appended exactly one row to the memory
  collection, with the identifier \<open>memory_\<close> followed by the token \<open>uuid4\<close> generated for
  the call, the given text as document, and a metadata dict with the entries \<open>source\<close> and
  \<open>timestamp_utc\<close>; the response carries that identifier.  No request the server handles
  removes or changes a stored row: whatever a collection holds before a request is a
  prefix of what it holds after.
\<close>

theorem remember_appends_one_row:
  assumes "add_appends (memory_add ext)"
  shows "(\<forall>resp w'. remember ext srv memory_text w = (resp, w') \<and> success resp \<longrightarrow>
            (\<exists>rows embedding.
               collections w (chromadb_path srv, memory_collection srv) = Some rows \<and>
               model_encode ext memory_text = Some embedding \<and>
               w' = w\<lparr>collections := (collections w)((chromadb_path srv, memory_collection srv) \<mapsto>
                      rows @ [\<lparr>row_id = JStr (''memory_'' @ uuid4 ext), row_embedding = embedding,
                               row_document = JStr memory_text,
                               row_metadata = JObj [(''source'', JStr ''user_memory''),
                                                    (''timestamp_utc'', JStr (utcnow ext))]\<rparr>])\<rparr> \<and>
               resp = Stored ''Memory stored successfully.'' (''memory_'' @ uuid4 ext))) \<and>
         (\<forall>req resp w' key rows.
            handle ext srv req w = (resp, w') \<and> collections w key = Some rows \<longrightarrow>
            (\<exists>rows'. collections w' key = Some rows' \<and> prefix rows rows'))"
proof (intro conjI allI impI)
  fix resp w'
  assume "remember ext srv memory_text w = (resp, w') \<and> success resp"
  then show "\<exists>rows embedding.
               collections w (chromadb_path srv, memory_collection srv) = Some rows \<and>
               model_encode ext memory_text = Some embedding \<and>
               w' = w\<lparr>collections := (collections w)((chromadb_path srv, memory_collection srv) \<mapsto>
                      rows @ [\<lparr>row_id = JStr (''memory_'' @ uuid4 ext), row_embedding = embedding,
                               row_document = JStr memory_text,
                               row_metadata = JObj [(''source'', JStr ''user_memory''),
                                                    (''timestamp_utc'', JStr (utcnow ext))]\<rparr>])\<rparr> \<and>
               resp = Stored ''Memory stored successfully.'' (''memory_'' @ uuid4 ext)"
    using remember_success[OF assms] by blast
next
  fix req resp w' key rows
  assume a: "handle ext srv req w = (resp, w') \<and> collections w key = Some rows"
  show "\<exists>rows'. collections w' key = Some rows' \<and> prefix rows rows'"
  proof (cases req)
    case (Remember mtext)
    with a have "remember ext srv mtext w = (resp, w')" and "collections w key = Some rows"
      by simp_all
    with assms show ?thesis by (rule remember_keeps_rows)
  qed (insert a, auto)
qed

text \<open>One memory stored in an empty memory collection.\<close>

theorem remember_witness:
  "add_appends (memory_add sample_mcp_external) \<and>
   success (fst (remember sample_mcp_external sample_server ''likes tea'' memory_world)) \<and>
   collections (snd (remember sample_mcp_external sample_server ''likes tea'' memory_world))
       (''db'', ''user_memories'')
     = Some [\<lparr>row_id = JStr ''memory_0b1f6c1e-8f0a-4c52-9a35-2f6f3c1d7e11'', row_embedding = 9,
              row_document = JStr ''likes tea'',
              row_metadata = JObj [(''source'', JStr ''user_memory''),
                                   (''timestamp_utc'', JStr ''2025-01-01T00:00:00'')]\<rparr>]"
proof -
  have 1: "add_appends (memory_add sample_mcp_external)"
    by (simp add: add_appends_def sample_mcp_external_def)
  obtain resp w' where r: "remember sample_mcp_external sample_server ''likes tea'' memory_world = (resp, w')"
    by (cases "remember sample_mcp_external sample_server ''likes tea'' memory_world")
  have "success (fst (remember sample_mcp_external sample_server ''likes tea'' memory_world))"
    by code_simp
  with r have 2: "success resp" by simp
  from remember_appends_one_row[OF 1, of sample_server "''likes tea''" memory_world] r 2
  obtain rows embedding where
    a: "collections memory_world (chromadb_path sample_server, memory_collection sample_server) = Some rows"
    and b: "model_encode sample_mcp_external ''likes tea'' = Some embedding"
    and c: "w' = memory_world\<lparr>collections := (collections memory_world)((chromadb_path sample_server, memory_collection sample_server) \<mapsto>
                      rows @ [\<lparr>row_id = JStr (''memory_'' @ uuid4 sample_mcp_external), row_embedding = embedding,
                               row_document = JStr ''likes tea'',
                               row_metadata = JObj [(''source'', JStr ''user_memory''),
                                                    (''timestamp_utc'', JStr (utcnow sample_mcp_external))]\<rparr>])\<rparr>"
    by blast
  from a have "rows = []" by (simp add: memory_world_def sample_server_def)
  moreover from b have "embedding = 9" by (simp add: sample_mcp_external_def)
  ultimately show ?thesis using 1 2 r c
    by (simp add: sample_server_def sample_mcp_external_def)
qed

section \<open>Runs of the vectorizer\<close>

lemma init_vectorizer_result:
  "init_vectorizer ext input db model_name tsk tdim mlen dev bsize w =
     (let name = collection_name_of input model_name;
          key = (db, name);
          dev' = (case dev of None \<Rightarrow> if cuda_available ext then ''cuda'' else ''cpu'' | Some d \<Rightarrow> d);
          self = \<lparr>input_file = input, db_directory = db, task = tsk, truncate_dim = tdim,
                  max_length = mlen, device = Some dev', batch_size = bsize, collection_name = name\<rparr>
      in if \<not> valid_collection_name ext name
         then (Inl ValueError, w\<lparr>collections := (collections w)(key := None)\<rparr>)
         else (if load_model ext model_name dev' then Inr self else Inl ModelError,
               w\<lparr>collections := (collections w)(key \<mapsto> []),
                 files := append_text (files w) collections_file
                            (name @ '' ('' @ now ext @ '') - Model: '' @ model_name
                               @ '', Task: '' @ tsk @ [CHR 0x0A])\<rparr>))"
  by (simp add: init_vectorizer_def setup_collection_def load_model_step_def Let_def)

text \<open>
  Claim C2, as amended.  When the input file does not exist (and is not the collections
  log itself), the run ends with an error and adds no row, but \<open>_setup_collection\<close> has
  run before the file is opened: the collection with the derived name has been deleted
  and, when the database accepts the name, created again empty, and one line has been
  appended to the collections log.  No other collection changes, and when the model
  loads the error is the missing file.
\<close>

theorem missing_input_file:
  assumes "files w input = None" and "input \<noteq> collections_file"
  shows "(\<exists>e. fst (vectorizer_main ext input db model_name tsk tdim mlen dev bsize w) = Inl e) \<and>
         collections (snd (vectorizer_main ext input db model_name tsk tdim mlen dev bsize w))
           = (collections w)((db, collection_name_of input model_name) :=
                if valid_collection_name ext (collection_name_of input model_name)
                then Some [] else None) \<and>
         files (snd (vectorizer_main ext input db model_name tsk tdim mlen dev bsize w))
           = (if valid_collection_name ext (collection_name_of input model_name)
              then append_text (files w) collections_file
                     (collection_name_of input model_name @ '' ('' @ now ext @ '') - Model: ''
                        @ model_name @ '', Task: '' @ tsk @ [CHR 0x0A])
              else files w) \<and>
         (valid_collection_name ext (collection_name_of input model_name) \<and>
          load_model ext model_name
            (case dev of None \<Rightarrow> if cuda_available ext then ''cuda'' else ''cpu'' | Some d \<Rightarrow> d) \<longrightarrow>
          fst (vectorizer_main ext input db model_name tsk tdim mlen dev bsize w)
            = Inl (FileNotFoundError input))"
proof -
  have "append_text (files w) collections_file t input = None" for t
    using assms by (simp add: append_text_def)
  then show ?thesis
    by (simp add: vectorizer_main_def init_vectorizer_result Let_def run_def load_chunks_def)
qed

text \<open>A database that holds a collection \<open>data_m\<close> with one row, and no file
  \<open>data.jsonl\<close>.\<close>

theorem missing_input_file_witness:
  "files stale_world ''data.jsonl'' = None \<and> ''data.jsonl'' \<noteq> collections_file \<and>
   fst (vectorizer_main sample_external ''data.jsonl'' ''db'' ''org/m'' ''retrieval.passage'' None
          8192 (Some ''cpu'') 2 stale_world) = Inl (FileNotFoundError ''data.jsonl'')"
proof -
  have 1: "files stale_world ''data.jsonl'' = None" by (simp add: stale_world_def)
  have 2: "''data.jsonl'' \<noteq> collections_file" by (simp add: collections_file_def)
  have 3: "valid_collection_name sample_external (collection_name_of ''data.jsonl'' ''org/m'')"
    by code_simp
  have 4: "load_model sample_external ''org/m''
             (case Some ''cpu'' of None \<Rightarrow> if cuda_available sample_external then ''cuda'' else ''cpu''
              | Some d \<Rightarrow> d)"
    by (simp add: sample_external_def)
  from missing_input_file[OF 1 2, of sample_external "''db''" "''org/m''" "''retrieval.passage''"
      None 8192 "Some ''cpu''" 2] 1 2 3 4
  show ?thesis by blast
qed

text \<open>Claim C2 as stated fails there: the run reports the missing file after it has
  emptied the collection and written the collections log.\<close>

theorem missing_input_file_counterexample:
  "files stale_world ''data.jsonl'' = None \<and>
   collections stale_world (''db'', ''data_m'')
     = Some [\<lparr>row_id = JStr ''old'', row_embedding = 0, row_document = JStr ''an old row'',
              row_metadata = JObj [(''source'', JStr ''old.md'')]\<rparr>] \<and>
   files stale_world collections_file = None \<and>
   fst (vectorizer_main sample_external ''data.jsonl'' ''db'' ''org/m'' ''retrieval.passage'' None
          8192 (Some ''cpu'') 2 stale_world) = Inl (FileNotFoundError ''data.jsonl'') \<and>
   collections (snd (vectorizer_main sample_external ''data.jsonl'' ''db'' ''org/m''
          ''retrieval.passage'' None 8192 (Some ''cpu'') 2 stale_world)) (''db'', ''data_m'') = Some [] \<and>
   files (snd (vectorizer_main sample_external ''data.jsonl'' ''db'' ''org/m''
          ''retrieval.passage'' None 8192 (Some ''cpu'') 2 stale_world)) collections_file
     = Some (''data_m (2025-01-01 00:00:00) - Model: org/m, Task: retrieval.passage'' @ [CHR 0x0A])"
  by code_simp

lemma map_result_length: "map_result f xs = Inr ys \<Longrightarrow> length ys = length xs"
  by (induction xs arbitrary: ys) (auto split: sum.splits)

lemma request_rows_slice:
  assumes "0 \<le> i" and "0 \<le> b"
  shows "request_rows \<lparr>ids = is, embeddings = es, documents = ds, metadatas = ms\<rparr>
           = R \<Longrightarrow>
         request_rows \<lparr>ids = py_slice is i (i + b), embeddings = py_slice es i (i + b),
                       documents = py_slice ds i (i + b), metadatas = py_slice ms i (i + b)\<rparr>
           = take (nat b) (drop (nat i) R)"
  by (auto simp: request_rows_def py_slice_nonneg[OF assms] take_map drop_map take_zip drop_zip)

lemma request_rows_projections:
  assumes "length es = length is" and "length ds = length es" and "length ms = length ds"
  shows "map row_id (request_rows \<lparr>ids = is, embeddings = es, documents = ds, metadatas = ms\<rparr>) = is"
    and "map row_embedding (request_rows \<lparr>ids = is, embeddings = es, documents = ds, metadatas = ms\<rparr>) = es"
    and "map row_document (request_rows \<lparr>ids = is, embeddings = es, documents = ds, metadatas = ms\<rparr>) = ds"
    and "map row_metadata (request_rows \<lparr>ids = is, embeddings = es, documents = ds, metadatas = ms\<rparr>) = ms"
  using assms[symmetric]
  by (induction "is" es ds ms rule: list_induct4; simp add: request_rows_def)+

lemma request_rows_ids:
  "set (map row_id (request_rows req)) \<subseteq> set (ids req)"
proof -
  have "map row_id (request_rows req)
          = map fst (zip (ids req) (zip (embeddings req) (zip (documents req) (metadatas req))))"
    by (simp add: request_rows_def case_prod_beta comp_def)
  then show ?thesis by (auto dest: set_zip_leftD)
qed

lemma embed_batches_length:
  assumes "one_vector_per_text (encode ext)"
  shows "embed_batches ext self batches (acc, t) = Inr (embs, t') \<Longrightarrow>
           length embs = length acc + length (concat batches)"
proof (induction batches arbitrary: acc t)
  case Nil
  then show ?case by simp
next
  case (Cons batch batches)
  from Cons.prems obtain toks vs where
    v: "encode ext (task self) (truncate_dim self) (max_length self) batch = Some vs" and
    r: "embed_batches ext self batches (acc @ vs, t + sum_list toks) = Inr (embs, t')"
    by (auto split: option.splits)
  from assms v have "length vs = length batch"
    by (auto simp: one_vector_per_text_def)
  with Cons.IH[OF r] show ?case by simp
qed

lemma batch_slices_concat:
  assumes "0 < b" and "batch_slices b xs = Inr batches"
  shows "concat batches = xs"
proof -
  define B where "B = nat b"
  have B: "0 < B" "b = int B" using assms(1) by (simp_all add: B_def)
  have m: "nat ((int (length xs) + b - 1) div b) = (length xs + B - 1) div B"
    unfolding B(2) by (rule ceil_div_nat[OF B(1)])
  from assms(2) have "batches = map (\<lambda>k. take B (drop (k * B) xs)) [0..<(length xs + B - 1) div B]"
    unfolding batch_slices_eq[OF assms(1)] m B_def by simp
  then have "concat batches = take ((length xs + B - 1) div B * B) xs"
    by (simp only: concat_takes)
  then show ?thesis using ceil_bounds(1)[OF B(1), of "length xs"] by simp
qed

lemma store_batches_fresh:
  fixes "is" :: "json list"
  assumes "add_appends_fresh (collection_add ext)"
    and "0 < batch_size self"
    and "length es = length is" and "length ds = length es" and "length ms = length ds"
    and "distinct is"
    and "request_rows \<lparr>ids = is, embeddings = es, documents = ds, metadatas = ms\<rparr> = R"
    and "store_batches ext self is es ds ms (map (\<lambda>k. int k * batch_size self) [k0..<m]) w
           = (Inr (), w')"
    and "collections w (db_directory self, collection_name self)
           = Some (take (k0 * nat (batch_size self)) R)"
    and "k0 \<le> m"
  shows "collections w'
           = (collections w)((db_directory self, collection_name self) \<mapsto>
                take (m * nat (batch_size self)) R) \<and>
         files w' = files w"
  using assms(8,9,10)
proof (induction "m - k0" arbitrary: k0 w)
  case 0
  then have "k0 = m" by simp
  with 0 show ?case by (simp add: map_upd_triv)
next
  case (Suc n)
  let ?key = "(db_directory self, collection_name self)"
  let ?b = "batch_size self"
  let ?B = "nat ?b"
  let ?i = "int k0 * ?b"
  let ?req = "\<lparr>ids = py_slice is ?i (?i + ?b), embeddings = py_slice es ?i (?i + ?b),
                documents = py_slice ds ?i (?i + ?b), metadatas = py_slice ms ?i (?i + ?b)\<rparr>"
  let ?rows0 = "take (k0 * ?B) R"
  from Suc.hyps(2) have lt: "k0 < m" by simp
  then have up: "[k0..<m] = k0 # [Suc k0..<m]" by (rule upt_conv_Cons)
  have i: "0 \<le> ?i" and b: "0 \<le> ?b" using assms(2) by simp_all
  have ni: "nat ?i = k0 * ?B" using assms(2) by (simp add: nat_mult_distrib)
  from Suc.prems(1,2) obtain rows' where
    a: "collection_add ext ?rows0 ?req = Some rows'" and
    r: "store_batches ext self is es ds ms (map (\<lambda>k. int k * ?b) [Suc k0..<m])
          (w\<lparr>collections := (collections w)(?key \<mapsto> rows')\<rparr>) = (Inr (), w')"
    unfolding up by (cases "collection_add ext ?rows0 ?req") (auto simp: Let_def)
  have sl: "py_slice xs ?i (?i + ?b) = take ?B (drop (k0 * ?B) xs)" for xs :: "'x list"
    using py_slice_nonneg[OF i b, of xs] ni by simp
  have ids: "map row_id R = is"
    using request_rows_projections(1)[OF assms(3,4,5)] assms(7) by simp
  have "row_id ` set ?rows0 = set (take (k0 * ?B) is)"
    using ids by (metis set_map take_map)
  moreover have "set (take ?B (drop (k0 * ?B) is)) \<subseteq> set (drop (k0 * ?B) is)"
    by (rule set_take_subset)
  moreover have "set (take (k0 * ?B) is) \<inter> set (drop (k0 * ?B) is) = {}"
    using assms(6) by (intro set_take_disj_set_drop_if_distinct) simp_all
  ultimately have fresh: "set (ids ?req) \<inter> row_id ` set ?rows0 = {}"
    unfolding sl by auto
  have dist: "distinct (ids ?req)"
    unfolding sl using assms(6) by simp
  have lens: "length (embeddings ?req) = length (ids ?req)"
             "length (documents ?req) = length (ids ?req)"
             "length (metadatas ?req) = length (ids ?req)"
    unfolding sl using assms(3,4,5) by simp_all
  from assms(1) a lens dist fresh have "rows' = ?rows0 @ request_rows ?req"
    unfolding add_appends_fresh_def by blast
  also have "request_rows ?req = take ?B (drop (k0 * ?B) R)"
    using request_rows_slice[OF i b assms(7)] ni by simp
  also have "?rows0 @ take ?B (drop (k0 * ?B) R) = take (k0 * ?B + ?B) R"
    by (rule take_add[symmetric])
  also have "k0 * ?B + ?B = Suc k0 * ?B"
    by simp
  finally have rows': "rows' = take (Suc k0 * ?B) R" .
  let ?w1 = "w\<lparr>collections := (collections w)(?key \<mapsto> rows')\<rparr>"
  have "n = m - Suc k0" using Suc.hyps(2) by simp
  moreover have "collections ?w1 ?key = Some (take (Suc k0 * ?B) R)"
    using rows' by simp
  moreover have "Suc k0 \<le> m" using lt by simp
  ultimately have ih:
    "collections w' = (collections ?w1)(?key \<mapsto> take (m * ?B) R) \<and> files w' = files ?w1"
    using r by (intro Suc.hyps(1))
  have "collections w' = (collections w)(?key \<mapsto> take (m * ?B) R)"
  proof -
    have "collections ?w1 = (collections w)(?key \<mapsto> rows')" by simp
    with ih have "collections w' = ((collections w)(?key \<mapsto> rows'))(?key \<mapsto> take (m * ?B) R)"
      by (simp only:)
    also have "\<dots> = (collections w)(?key \<mapsto> take (m * ?B) R)"
      by (rule fun_upd_upd)
    finally show ?thesis .
  qed
  moreover have "files w' = files w" using ih by simp
  ultimately show ?case by blast
qed

lemma process_and_store_rows:
  assumes "add_appends_fresh (collection_add ext)"
    and "one_vector_per_text (encode ext)"
    and "0 < batch_size self"
    and "chunks \<noteq> []"
    and "process_and_store_chunks ext self chunks w = (Inr (), w')"
    and "collections w (db_directory self, collection_name self) = Some []"
  shows "\<exists>chunk_ids texts metas batches embs tokens.
           map_result (\<lambda>chunk. py_getitem chunk ''id'') chunks = Inr chunk_ids \<and>
           map_result (\<lambda>chunk. py_getitem chunk ''text'') chunks = Inr texts \<and>
           map_result source_metadata chunks = Inr metas \<and>
           batch_slices (batch_size self) texts = Inr batches \<and>
           concat batches = texts \<and>
           embed_batches ext self batches ([], 0) = Inr (embs, tokens) \<and>
           length embs = length chunks \<and>
           (distinct chunk_ids \<longrightarrow>
              (\<exists>rows. collections w' (db_directory self, collection_name self) = Some rows \<and>
                 length rows = length chunks \<and>
                 map row_id rows = chunk_ids \<and>
                 map row_embedding rows = embs \<and>
                 map row_document rows = texts \<and>
                 map row_metadata rows = metas))"
proof -
  let ?b = "batch_size self"
  let ?key = "(db_directory self, collection_name self)"
  from assms(4,5) obtain chunk_ids where
    1: "map_result (\<lambda>chunk. py_getitem chunk ''id'') chunks = Inr chunk_ids"
    by (cases "map_result (\<lambda>chunk. py_getitem chunk ''id'') chunks")
       (auto simp: process_and_store_chunks_def)
  from assms(4,5) 1 obtain texts where
    2: "map_result (\<lambda>chunk. py_getitem chunk ''text'') chunks = Inr texts"
    by (cases "map_result (\<lambda>chunk. py_getitem chunk ''text'') chunks")
       (auto simp: process_and_store_chunks_def)
  from assms(4,5) 1 2 obtain metas where
    3: "map_result source_metadata chunks = Inr metas"
    by (cases "map_result source_metadata chunks")
       (auto simp: process_and_store_chunks_def)
  from assms(4,5) 1 2 3 obtain n_batches where
    4: "total_batches chunks ?b = Inr n_batches"
    by (cases "total_batches chunks ?b") (auto simp: process_and_store_chunks_def)
  from assms(4,5) 1 2 3 4 obtain batches where
    5: "batch_slices ?b texts = Inr batches"
    by (cases "batch_slices ?b texts") (auto simp: process_and_store_chunks_def)
  from assms(4,5) 1 2 3 4 5 obtain embs tokens where
    6: "embed_batches ext self batches ([], 0) = Inr (embs, tokens)"
    by (cases "embed_batches ext self batches ([], 0)")
       (auto simp: process_and_store_chunks_def)
  from assms(4,5) 1 2 3 4 5 6 obtain starts where
    7: "py_range 0 (int (length chunks)) ?b = Inr starts"
    by (cases "py_range 0 (int (length chunks)) ?b") (auto simp: process_and_store_chunks_def)
  from assms(4,5) 1 2 3 4 5 6 7 have
    8: "store_batches ext self chunk_ids embs texts metas starts w = (Inr (), w')"
    by (simp add: process_and_store_chunks_def)
  note n = map_result_length[OF 1] map_result_length[OF 2] map_result_length[OF 3]
  have c: "concat batches = texts"
    using assms(3) 5 by (rule batch_slices_concat)
  have e: "length embs = length chunks"
    using embed_batches_length[OF assms(2) 6] c n by simp
  have l: "length embs = length chunk_ids" "length texts = length embs" "length metas = length texts"
    using e n by simp_all
  let ?R = "request_rows \<lparr>ids = chunk_ids, embeddings = embs, documents = texts, metadatas = metas\<rparr>"
  note p = request_rows_projections[OF l]
  have lenR: "length ?R = length chunks"
    using arg_cong[OF p(1), of length] n by simp
  have stored: "collections w' ?key = Some ?R" if d: "distinct chunk_ids"
  proof -
    define B where "B = nat ?b"
    define m where "m = (length chunks + B - 1) div B"
    have B: "0 < B" "?b = int B" using assms(3) by (simp_all add: B_def)
    have "nat ((int (length chunks) - 0 + ?b - 1) div ?b) = m"
      unfolding B(2) m_def using ceil_div_nat[OF B(1), of "length chunks"] by simp
    with 7 range_from_steps[OF assms(3), of 0 "int (length chunks)"] assms(3)
    have starts: "starts = map (\<lambda>k. int k * ?b) [0..<m]"
      by (simp add: py_range_def)
    have "collections w ?key = Some (take (0 * nat ?b) ?R)"
      using assms(6) by simp
    from store_batches_fresh[OF assms(1,3) l d refl 8[unfolded starts] this]
    have "collections w' ?key = Some (take (m * B) ?R)"
      by (simp add: B_def)
    moreover have "length ?R \<le> m * B"
      unfolding lenR m_def by (rule ceil_bounds(1)[OF B(1)])
    ultimately show ?thesis by simp
  qed
  have "\<exists>rows. collections w' ?key = Some rows \<and> length rows = length chunks \<and>
          map row_id rows = chunk_ids \<and> map row_embedding rows = embs \<and>
          map row_document rows = texts \<and> map row_metadata rows = metas"
    if "distinct chunk_ids"
    using stored[OF that] lenR p by blast
  with 1 2 3 5 6 c e show ?thesis by blast
qed

text \<open>
  Claim C3.  The database appends the rows of an \<open>add\<close> whose identifiers are distinct
  and new to the collection, the model returns one vector for each text, and the batch
  size is at least one.  In a successful run that follows a successful run on the same
  collection name, the collection is empty when \<open>__init__\<close> returns, before any row is
  written.  When the run ends and the identifiers of its chunks are distinct, the
  collection holds one row for each chunk of this run, in file order and nothing else:
  the chunk's identifier, the vector the model computed for its text in this run, its
  text and its source, whatever the earlier run left.  (A run on a file without chunks
  leaves the collection empty.)
\<close>

theorem rerun_replaces_rows:
  assumes "add_appends_fresh (collection_add ext)"
    and "one_vector_per_text (encode ext)"
    and "1 \<le> bsize"
    and "vectorizer_main ext0 input0 db model0 tsk0 tdim0 mlen0 dev0 bsize0 w0 = (Inr (), w1)"
    and "collection_name_of input0 model0 = collection_name_of input model_name"
    and "vectorizer_main ext input db model_name tsk tdim mlen dev bsize (w1\<lparr>files := fs\<rparr>)
           = (Inr (), w2)"
  shows "collections
           (snd (init_vectorizer ext input db model_name tsk tdim mlen dev bsize (w1\<lparr>files := fs\<rparr>)))
           (db, collection_name_of input0 model0) = Some [] \<and>
         (\<exists>self chunks.
            fst (init_vectorizer ext input db model_name tsk tdim mlen dev bsize (w1\<lparr>files := fs\<rparr>))
              = Inr self \<and>
            load_chunks ext self
              (snd (init_vectorizer ext input db model_name tsk tdim mlen dev bsize (w1\<lparr>files := fs\<rparr>)))
              = Inr chunks \<and>
            (chunks = [] \<and> collections w2 (db, collection_name_of input0 model0) = Some [] \<or>
             chunks \<noteq> [] \<and>
             (\<exists>chunk_ids texts metas batches embs tokens.
                map_result (\<lambda>chunk. py_getitem chunk ''id'') chunks = Inr chunk_ids \<and>
                map_result (\<lambda>chunk. py_getitem chunk ''text'') chunks = Inr texts \<and>
                map_result source_metadata chunks = Inr metas \<and>
                batch_slices bsize texts = Inr batches \<and>
                concat batches = texts \<and>
                embed_batches ext self batches ([], 0) = Inr (embs, tokens) \<and>
                length embs = length chunks \<and>
                (distinct chunk_ids \<longrightarrow>
                   (\<exists>rows. collections w2 (db, collection_name_of input0 model0) = Some rows \<and>
                      length rows = length chunks \<and>
                      map row_id rows = chunk_ids \<and>
                      map row_embedding rows = embs \<and>
                      map row_document rows = texts \<and>
                      map row_metadata rows = metas)))))"
proof -
  let ?w = "w1\<lparr>files := fs\<rparr>"
  let ?init = "init_vectorizer ext input db model_name tsk tdim mlen dev bsize ?w"
  let ?name = "collection_name_of input model_name"
  let ?key = "(db, ?name)"
  obtain r w where init: "?init = (r, w)" by (cases ?init)
  from assms(6) init obtain self where r: "r = Inr self" and run: "run ext self w = (Inr (), w2)"
    by (cases r) (auto simp: vectorizer_main_def)
  from init r have valid: "valid_collection_name ext ?name"
    by (auto simp: init_vectorizer_result Let_def split: if_splits)
  from init r valid have
    w: "collections w = (collections ?w)(?key \<mapsto> [])" and
    self: "db_directory self = db" "collection_name self = ?name" "batch_size self = bsize"
    by (auto simp: init_vectorizer_result Let_def split: if_splits)
  have empty: "collections w ?key = Some []" using w by simp
  from run obtain chunks where load: "load_chunks ext self w = Inr chunks"
    by (cases "load_chunks ext self w") (auto simp: run_def)
  have "chunks = [] \<and> collections w2 ?key = Some [] \<or>
        chunks \<noteq> [] \<and>
        (\<exists>chunk_ids texts metas batches embs tokens.
           map_result (\<lambda>chunk. py_getitem chunk ''id'') chunks = Inr chunk_ids \<and>
           map_result (\<lambda>chunk. py_getitem chunk ''text'') chunks = Inr texts \<and>
           map_result source_metadata chunks = Inr metas \<and>
           batch_slices bsize texts = Inr batches \<and>
           concat batches = texts \<and>
           embed_batches ext self batches ([], 0) = Inr (embs, tokens) \<and>
           length embs = length chunks \<and>
           (distinct chunk_ids \<longrightarrow>
              (\<exists>rows. collections w2 ?key = Some rows \<and>
                 length rows = length chunks \<and>
                 map row_id rows = chunk_ids \<and>
                 map row_embedding rows = embs \<and>
                 map row_document rows = texts \<and>
                 map row_metadata rows = metas)))"
  proof (cases "chunks = []")
    case True
    with run load have "w2 = w" by (simp add: run_def)
    with True empty show ?thesis by simp
  next
    case False
    with run load have p: "process_and_store_chunks ext self chunks w = (Inr (), w2)"
      by (simp add: run_def)
    have e: "collections w (db_directory self, collection_name self) = Some []"
      using empty self by simp
    have b: "0 < batch_size self" using assms(3) self by simp
    from process_and_store_rows[OF assms(1,2) b False p e] False show ?thesis
      unfolding self by blast
  qed
  with init r load empty show ?thesis
    unfolding assms(5) by auto
qed

text \<open>A run on a file of three records, then a run on the same path holding one record,
  whose identifier the first run had stored too: the collection ends with that one
  row.\<close>

theorem rerun_witness:
  "add_appends_fresh (collection_add sample_external) \<and>
   one_vector_per_text (encode sample_external) \<and>
   fst (vectorizer_main sample_external ''data.jsonl'' ''db'' ''org/m'' ''retrieval.passage'' None
          8192 (Some ''cpu'') 2 (sample_world (concat (map sample_line (take 3 sample_ids)))))
     = Inr () \<and>
   map row_id (the (collections first_run_world (''db'', ''data_m'')))
     = [JStr ''doc_000001'', JStr ''doc_000002'', JStr ''doc_000003''] \<and>
   fst (vectorizer_main sample_external ''data.jsonl'' ''db'' ''org/m'' ''retrieval.passage'' None
          8192 (Some ''cpu'') 2 (first_run_world\<lparr>files := second_run_files\<rparr>)) = Inr () \<and>
   collections
     (snd (init_vectorizer sample_external ''data.jsonl'' ''db'' ''org/m'' ''retrieval.passage'' None
             8192 (Some ''cpu'') 2 (first_run_world\<lparr>files := second_run_files\<rparr>)))
     (''db'', ''data_m'') = Some [] \<and>
   map row_id (the (collections
     (snd (vectorizer_main sample_external ''data.jsonl'' ''db'' ''org/m'' ''retrieval.passage'' None
             8192 (Some ''cpu'') 2 (first_run_world\<lparr>files := second_run_files\<rparr>)))
     (''db'', ''data_m''))) = [JStr ''doc_000003''] \<and>
   collections
     (snd (vectorizer_main sample_external ''data.jsonl'' ''db'' ''org/m'' ''retrieval.passage'' None
             8192 (Some ''cpu'') 2 (first_run_world\<lparr>files := second_run_files\<rparr>)))
     (''db'', ''data_m'')
     = Some [\<lparr>row_id = JStr ''doc_000003'', row_embedding = 0, row_document = JStr ''Hello world.'',
              row_metadata = JObj [(''source'', JStr ''a.md'')]\<rparr>]"
proof -
  let ?run1 = "vectorizer_main sample_external ''data.jsonl'' ''db'' ''org/m'' ''retrieval.passage''
                 None 8192 (Some ''cpu'') 2 (sample_world (concat (map sample_line (take 3 sample_ids))))"
  let ?w = "first_run_world\<lparr>files := second_run_files\<rparr>"
  let ?run2 = "vectorizer_main sample_external ''data.jsonl'' ''db'' ''org/m'' ''retrieval.passage''
                 None 8192 (Some ''cpu'') 2 ?w"
  let ?init = "init_vectorizer sample_external ''data.jsonl'' ''db'' ''org/m'' ''retrieval.passage''
                 None 8192 (Some ''cpu'') 2 ?w"
  have 1: "add_appends_fresh (collection_add sample_external)"
  proof -
    have "filter (\<lambda>r. row_id r \<notin> set (map row_id rows)) (request_rows req) = request_rows req"
      if "set (ids req) \<inter> row_id ` set rows = {}"
      for rows :: "nat row list" and req :: "nat add_request"
      using that request_rows_ids[of req] by (intro filter_True) auto
    then show ?thesis
      by (auto simp: add_appends_fresh_def sample_external_def split: if_splits)
  qed
  have 2: "one_vector_per_text (encode sample_external)"
    by (auto simp: one_vector_per_text_def sample_external_def)
  have 3: "(1::int) \<le> 2" by simp
  have f1: "fst ?run1 = Inr ()" by code_simp
  then have 4: "?run1 = (Inr (), first_run_world)"
    unfolding first_run_world_def by (metis prod.collapse)
  have name: "collection_name_of ''data.jsonl'' ''org/m'' = ''data_m''" by code_simp
  have 5: "collection_name_of ''data.jsonl'' ''org/m'' = collection_name_of ''data.jsonl'' ''org/m''"
    by (rule refl)
  have f2: "fst ?run2 = Inr ()" by code_simp
  then have 6: "?run2 = (Inr (), snd ?run2)"
    by (metis prod.collapse)
  have n: "map row_id (the (collections first_run_world (''db'', ''data_m'')))
             = [JStr ''doc_000001'', JStr ''doc_000002'', JStr ''doc_000003'']"
    by code_simp
  have ld: "\<not> isl (fst ?init) \<and>
            load_chunks sample_external (projr (fst ?init)) (snd ?init) = Inr [sample_doc ''doc_000003'']"
    by code_simp
  from rerun_replaces_rows[OF 1 2 3 4 5 6, unfolded name] obtain self chunks where
    e: "collections (snd ?init) (''db'', ''data_m'') = Some []" and
    s: "fst ?init = Inr self" and
    l: "load_chunks sample_external self (snd ?init) = Inr chunks" and
    c: "chunks = [] \<and> collections (snd ?run2) (''db'', ''data_m'') = Some [] \<or>
        chunks \<noteq> [] \<and>
        (\<exists>chunk_ids texts metas batches embs tokens.
           map_result (\<lambda>chunk. py_getitem chunk ''id'') chunks = Inr chunk_ids \<and>
           map_result (\<lambda>chunk. py_getitem chunk ''text'') chunks = Inr texts \<and>
           map_result source_metadata chunks = Inr metas \<and>
           batch_slices 2 texts = Inr batches \<and>
           concat batches = texts \<and>
           embed_batches sample_external self batches ([], 0) = Inr (embs, tokens) \<and>
           length embs = length chunks \<and>
           (distinct chunk_ids \<longrightarrow>
              (\<exists>rows. collections (snd ?run2) (''db'', ''data_m'') = Some rows \<and>
                 length rows = length chunks \<and>
                 map row_id rows = chunk_ids \<and>
                 map row_embedding rows = embs \<and>
                 map row_document rows = texts \<and>
                 map row_metadata rows = metas)))"
    by blast
  from s l ld have chunks: "chunks = [sample_doc ''doc_000003'']" by simp
  with c obtain chunk_ids rows where
    i: "map_result (\<lambda>chunk. py_getitem chunk ''id'') chunks = Inr chunk_ids" and
    d: "distinct chunk_ids \<longrightarrow>
          collections (snd ?run2) (''db'', ''data_m'') = Some rows \<and> map row_id rows = chunk_ids"
    by auto
  from i have "chunk_ids = [JStr ''doc_000003'']"
    unfolding chunks by (simp add: sample_doc_def)
  with d have ids: "map row_id (the (collections (snd ?run2) (''db'', ''data_m'')))
                      = [JStr ''doc_000003'']"
    by simp
  have r: "collections (snd ?run2) (''db'', ''data_m'')
     = Some [\<lparr>row_id = JStr ''doc_000003'', row_embedding = 0, row_document = JStr ''Hello world.'',
              row_metadata = JObj [(''source'', JStr ''a.md'')]\<rparr>]"
    by code_simp
  from 1 2 f1 n f2 e ids r show ?thesis by blast
qed

end
